theory Spec2Isabelle
  imports Main "HOL-Library.Word"
begin

section \<open>The runtime task queue (tests/DSWP\_concat/threadpooler.cpp)\<close>

text \<open>
  \<^verbatim>\<open>ThreadSafeQueue<T>\<close> holds an atomic flag \<^verbatim>\<open>m_valid\<close> (initially true) and a
  \<^verbatim>\<open>std::queue<T> m_queue\<close>. Every member function takes \<^verbatim>\<open>m_mutex\<close> for its whole body,
  so one call is one atomic step on the pair of fields; the only place a call gives the
  mutex up is a \<^verbatim>\<open>condition_variable::wait(lock, pred)\<close>, which returns at once when
  \<^verbatim>\<open>pred\<close> holds and otherwise parks the calling thread. A call that parks is the value
  \<open>None\<close> below: it has not returned, and it has not changed the queue.
  The front of the queue is the head of the list.
\<close>

record 'a ThreadSafeQueue =
  m_valid :: bool
  m_queue :: "'a list"

definition internal_push :: "'a \<Rightarrow> 'a ThreadSafeQueue \<Rightarrow> 'a ThreadSafeQueue" where
  "internal_push v q = q\<lparr>m_queue := m_queue q @ [v]\<rparr>"

text \<open>\<^verbatim>\<open>internal_pop\<close> is only called on a non-empty queue; it returns the front element
  (the out parameter) and the queue without it.\<close>

definition internal_pop :: "'a ThreadSafeQueue \<Rightarrow> 'a \<times> 'a ThreadSafeQueue" where
  "internal_pop q = (hd (m_queue q), q\<lparr>m_queue := tl (m_queue q)\<rparr>)"

text \<open>\<^verbatim>\<open>bool tryPop (T& out)\<close>: the result, the value written to \<^verbatim>\<open>out\<close> (if any), the queue.\<close>

definition tryPop :: "'a ThreadSafeQueue \<Rightarrow> bool \<times> 'a option \<times> 'a ThreadSafeQueue" where
  "tryPop q =
     (if m_queue q = [] \<or> \<not> m_valid q then (False, None, q)
      else (let (out, q') = internal_pop q in (True, Some out, q')))"

text \<open>\<^verbatim>\<open>bool waitPop (T& out)\<close>. A valid, empty queue parks the caller on
  \<^verbatim>\<open>empty_condition\<close>.\<close>

definition waitPop :: "'a ThreadSafeQueue \<Rightarrow> (bool \<times> 'a option \<times> 'a ThreadSafeQueue) option" where
  "waitPop q =
     (if \<not> m_valid q then Some (False, None, q)
      else if m_queue q = [] \<and> \<not> (m_queue q \<noteq> [] \<or> \<not> m_valid q) then None
      else if \<not> m_valid q then Some (False, None, q)
      else (let (out, q') = internal_pop q in Some (True, Some out, q')))"

text \<open>\<^verbatim>\<open>bool waitPop (void)\<close>: the same, the front element is dropped.\<close>

definition waitPop_void :: "'a ThreadSafeQueue \<Rightarrow> (bool \<times> 'a ThreadSafeQueue) option" where
  "waitPop_void q =
     (if \<not> m_valid q then Some (False, q)
      else if m_queue q = [] \<and> \<not> (m_queue q \<noteq> [] \<or> \<not> m_valid q) then None
      else if \<not> m_valid q then Some (False, q)
      else Some (True, q\<lparr>m_queue := tl (m_queue q)\<rparr>))"

text \<open>\<^verbatim>\<open>void push (T value)\<close>: no result, and no look at \<^verbatim>\<open>m_valid\<close>.\<close>

definition push :: "'a \<Rightarrow> 'a ThreadSafeQueue \<Rightarrow> 'a ThreadSafeQueue" where
  "push v q = internal_push v q"

text \<open>\<^verbatim>\<open>bool waitPush (T value, int64_t maxSize)\<close>. The wait predicate compares
  \<^verbatim>\<open>m_queue.size()\<close> (a \<^verbatim>\<open>size_t\<close>) with the \<^verbatim>\<open>int64_t\<close> bound, so the bound is converted
  to unsigned: \<open>unat\<close> of the 64-bit word.\<close>

definition waitPush ::
  "'a \<Rightarrow> 64 word \<Rightarrow> 'a ThreadSafeQueue \<Rightarrow> (bool \<times> 'a ThreadSafeQueue) option" where
  "waitPush v maxSize q =
     (if \<not> (length (m_queue q) < unat maxSize \<or> \<not> m_valid q) then None
      else if \<not> m_valid q then Some (False, q)
      else Some (True, internal_push v q))"

definition clear :: "'a ThreadSafeQueue \<Rightarrow> 'a ThreadSafeQueue" where
  "clear q = q\<lparr>m_queue := []\<rparr>"

definition invalidate :: "'a ThreadSafeQueue \<Rightarrow> 'a ThreadSafeQueue" where
  "invalidate q = (if \<not> m_valid q then q else q\<lparr>m_valid := False\<rparr>)"

text \<open>The states a queue can reach from \<open>q0\<close> by calls that return (a parked call changes
  nothing, and when it is woken it runs the part of its body after the wait, which is what
  a fresh call does in the state it wakes up in).\<close>

inductive reaches :: "'a ThreadSafeQueue \<Rightarrow> 'a ThreadSafeQueue \<Rightarrow> bool" for q0 where
  reaches_refl: "reaches q0 q0"
| reaches_push: "reaches q0 q \<Longrightarrow> reaches q0 (push v q)"
| reaches_waitPush: "reaches q0 q \<Longrightarrow> waitPush v n q = Some (r, q') \<Longrightarrow> reaches q0 q'"
| reaches_tryPop: "reaches q0 q \<Longrightarrow> tryPop q = (r, out, q') \<Longrightarrow> reaches q0 q'"
| reaches_waitPop: "reaches q0 q \<Longrightarrow> waitPop q = Some (r, out, q') \<Longrightarrow> reaches q0 q'"
| reaches_waitPop_void: "reaches q0 q \<Longrightarrow> waitPop_void q = Some (r, q') \<Longrightarrow> reaches q0 q'"
| reaches_clear: "reaches q0 q \<Longrightarrow> reaches q0 (clear q)"
| reaches_invalidate: "reaches q0 q \<Longrightarrow> reaches q0 (invalidate q)"

section \<open>The program representation the analysis reads\<close>

text \<open>
  InductionVariables.cpp works on LLVM objects through pointers. A pointer to a
  \<^verbatim>\<open>Value\<close> or to a \<^verbatim>\<open>BasicBlock\<close> is its address, a natural number; what a pointer
  points to is looked up in the \<open>Function\<close> record below.
\<close>

type_synonym Value = nat
type_synonym BasicBlock = nat

text \<open>The ways a call can stop the program: a failed \<^verbatim>\<open>assert\<close> (of this file or inside
  an LLVM accessor such as \<^verbatim>\<open>cast<>\<close>, \<^verbatim>\<open>getCondition\<close> or \<^verbatim>\<open>setSuccessor\<close>), the use of a
  null or never assigned pointer, and \<^verbatim>\<open>std::map::at\<close> on a missing key.\<close>

datatype error = AssertionFailed | NullPointer | OutOfRange

text \<open>The comparison of the header has the header PHI of an induction variable as an
  operand; scalar evolution gives a recurrence only to integer and pointer values, so the
  comparison is an integer comparison and its predicate one of the ten below.\<close>

datatype Predicate =
    ICMP_EQ | ICMP_NE
  | ICMP_UGT | ICMP_UGE | ICMP_ULT | ICMP_ULE
  | ICMP_SGT | ICMP_SGE | ICMP_SLT | ICMP_SLE

text \<open>\<^verbatim>\<open>CmpInst::getInversePredicate\<close> (the predicate of the negated comparison) and
  \<^verbatim>\<open>CmpInst::getSwappedPredicate\<close> (the predicate after exchanging the operands).\<close>

fun getInversePredicate :: "Predicate \<Rightarrow> Predicate" where
  "getInversePredicate ICMP_EQ = ICMP_NE"
| "getInversePredicate ICMP_NE = ICMP_EQ"
| "getInversePredicate ICMP_UGT = ICMP_ULE"
| "getInversePredicate ICMP_UGE = ICMP_ULT"
| "getInversePredicate ICMP_ULT = ICMP_UGE"
| "getInversePredicate ICMP_ULE = ICMP_UGT"
| "getInversePredicate ICMP_SGT = ICMP_SLE"
| "getInversePredicate ICMP_SGE = ICMP_SLT"
| "getInversePredicate ICMP_SLT = ICMP_SGE"
| "getInversePredicate ICMP_SLE = ICMP_SGT"

fun getSwappedPredicate :: "Predicate \<Rightarrow> Predicate" where
  "getSwappedPredicate ICMP_EQ = ICMP_EQ"
| "getSwappedPredicate ICMP_NE = ICMP_NE"
| "getSwappedPredicate ICMP_UGT = ICMP_ULT"
| "getSwappedPredicate ICMP_UGE = ICMP_ULE"
| "getSwappedPredicate ICMP_ULT = ICMP_UGT"
| "getSwappedPredicate ICMP_ULE = ICMP_UGE"
| "getSwappedPredicate ICMP_SGT = ICMP_SLT"
| "getSwappedPredicate ICMP_SGE = ICMP_SLE"
| "getSwappedPredicate ICMP_SLT = ICMP_SGT"
| "getSwappedPredicate ICMP_SLE = ICMP_SGE"

record CmpInst =
  getPredicate :: Predicate
  getOperand0 :: Value
  getOperand1 :: Value

text \<open>A \<^verbatim>\<open>BranchInst\<close> has a condition and two successors, or one successor.\<close>

datatype BranchInst =
    Conditional Value BasicBlock BasicBlock
  | Unconditional BasicBlock

text \<open>What a \<^verbatim>\<open>Value*\<close> points to, as far as \<^verbatim>\<open>isa<>\<close> and \<^verbatim>\<open>dyn_cast<>\<close> tell the classes
  apart in this file. A PHI node carries its incoming (value, block) pairs in index
  order.\<close>

datatype ValueKind =
    PHINode "(Value \<times> BasicBlock) list"
  | Cmp CmpInst
  | Br BranchInst
  | GetElementPtrInst
  | OtherInstruction
  | NotAnInstruction

fun isInstruction :: "ValueKind \<Rightarrow> bool" where
  "isInstruction NotAnInstruction = False"
| "isInstruction _ = True"

fun isPHINode :: "ValueKind \<Rightarrow> bool" where
  "isPHINode (PHINode _) = True"
| "isPHINode _ = False"

fun isUnconditional :: "BranchInst \<Rightarrow> bool" where
  "isUnconditional (Unconditional _) = True"
| "isUnconditional (Conditional _ _ _) = False"

text \<open>\<^verbatim>\<open>getSuccessor(0)\<close>, defined for both kinds of branch.\<close>

fun getSuccessor0 :: "BranchInst \<Rightarrow> BasicBlock" where
  "getSuccessor0 (Conditional _ s0 _) = s0"
| "getSuccessor0 (Unconditional s) = s"

text \<open>The function under analysis: what each value is, the block of an instruction, the
  terminator of a block (every block has one) and the instructions of a block in program
  order.\<close>

record Function =
  valueAt :: "Value \<Rightarrow> ValueKind"
  getParent :: "Value \<Rightarrow> BasicBlock"
  getTerminator :: "BasicBlock \<Rightarrow> Value"
  instructionsOf :: "BasicBlock \<Rightarrow> Value list"

text \<open>\<^verbatim>\<open>BasicBlock::phis()\<close>: the PHI nodes that lead the block.\<close>

definition phis :: "Function \<Rightarrow> BasicBlock \<Rightarrow> Value list" where
  "phis F b = takeWhile (\<lambda>v. isPHINode (valueAt F v)) (instructionsOf F b)"

text \<open>
  A strongly connected component is a dependence graph with internal and external nodes;
  a node is identified with the value it wraps (\<^verbatim>\<open>getT\<close>). The edges that arrive at a node
  are listed in iteration order; \<^verbatim>\<open>getOutgoingT\<close> of such an edge is the producer the
  node depends on, and an edge is a data or a control dependence.
\<close>

record DGEdge =
  getOutgoingT :: Value
  isDataDependence :: bool

record SCC =
  internalNodes :: "Value list"
  externalNodes :: "Value list"
  getIncomingEdges :: "Value \<Rightarrow> DGEdge list"

definition isInternal :: "SCC \<Rightarrow> Value \<Rightarrow> bool" where
  "isInternal scc v = (v \<in> set (internalNodes scc))"

text \<open>\<^verbatim>\<open>fetchNode\<close> finds a node for the internal and the external values only.\<close>

definition hasNode :: "SCC \<Rightarrow> Value \<Rightarrow> bool" where
  "hasNode scc v = (v \<in> set (internalNodes scc) \<or> v \<in> set (externalNodes scc))"

text \<open>The classification of scalar evolution, by \<^verbatim>\<open>getSCEVType\<close>. A constant carries its
  \<^verbatim>\<open>ConstantInt\<close>; a recurrence carries its start and its step recurrence.\<close>

datatype 'c SCEV =
    scConstant 'c
  | scAddExpr
  | scMulExpr
  | scAddRecExpr "'c SCEV" "'c SCEV"
  | scUnknown
  | scOtherExpr

fun isAddRecExpr :: "'c SCEV \<Rightarrow> bool" where
  "isAddRecExpr (scAddRecExpr _ _) = True"
| "isAddRecExpr _ = False"

text \<open>The value of a \<^verbatim>\<open>ConstantInt\<close> is an \<^verbatim>\<open>APInt\<close>, a machine word of some width.
  \<^verbatim>\<open>APInt::isNegative\<close> reads the sign bit, and \<^verbatim>\<open>APInt::isStrictlyPositive\<close> is
  \<^verbatim>\<open>isNonNegative() && !isZero()\<close>.\<close>

definition isNegative :: "'w::len word \<Rightarrow> bool" where
  "isNegative w = bit w (LENGTH('w) - 1)"

definition isStrictlyPositive :: "'w::len word \<Rightarrow> bool" where
  "isStrictlyPositive w = (\<not> isNegative w \<and> w \<noteq> 0)"

record LoopSummary =
  getHeader :: BasicBlock
  getBasicBlocks :: "BasicBlock set"

text \<open>\<^verbatim>\<open>LoopsSummary\<close>: the loops, and the exit blocks of the root of the loop nesting
  tree (\<^verbatim>\<open>getLoopNestingTreeRoot()->getLoopExitBasicBlocks()\<close>).\<close>

record LoopsSummary =
  loops :: "LoopSummary list"
  rootLoopExitBasicBlocks :: "BasicBlock list"

section \<open>InductionVariable\<close>

text \<open>The fields the constructor fills. \<^verbatim>\<open>startValue\<close> is not initialised before the
  scan of the incoming blocks, so it is \<open>None\<close> until that scan assigns it; \<^verbatim>\<open>stepSize\<close>
  is a \<^verbatim>\<open>ConstantInt*\<close> or \<^verbatim>\<open>nullptr\<close>.\<close>

record 'c InductionVariable =
  headerPHI :: Value
  PHIs :: "Value set"
  accumulators :: "Value set"
  allInstructions :: "Value set"
  startValue :: "Value option"
  stepSize :: "'c option"

text \<open>The body of the traversal loop for a value seen for the first time: a PHI goes to
  \<^verbatim>\<open>PHIs\<close>, any other instruction to \<^verbatim>\<open>accumulators\<close>, both to \<^verbatim>\<open>allInstructions\<close>.\<close>

definition classify :: "Function \<Rightarrow> Value \<Rightarrow> 'c InductionVariable \<Rightarrow> 'c InductionVariable" where
  "classify F v iv =
     (if isPHINode (valueAt F v)
      then iv\<lparr>PHIs := insert v (PHIs iv), allInstructions := insert v (allInstructions iv)\<rparr>
      else if isInstruction (valueAt F v)
      then iv\<lparr>accumulators := insert v (accumulators iv),
              allInstructions := insert v (allInstructions iv)\<rparr>
      else iv)"

text \<open>The nodes the loop pushes for a value: the sources of its incoming edges that are
  data dependences and internal to the component.\<close>

definition internalDataProducers :: "SCC \<Rightarrow> Value \<Rightarrow> Value list" where
  "internalDataProducers scc v =
     map getOutgoingT
       (filter (\<lambda>edge. isDataDependence edge \<and> isInternal scc (getOutgoingT edge))
          (getIncomingEdges scc v))"

text \<open>The \<^verbatim>\<open>while (!ivIntermediateValues.empty())\<close> loop: the queue, the visited set and the
  object under construction. It ends because every pushed node is internal to the
  component and each value is expanded once.\<close>

function collectIntermediateValues ::
  "Function \<Rightarrow> SCC \<Rightarrow> Value list \<Rightarrow> Value set \<Rightarrow> 'c InductionVariable
     \<Rightarrow> 'c InductionVariable" where
  "collectIntermediateValues F scc [] valuesVisited iv = iv"
| "collectIntermediateValues F scc (v # ivIntermediateValues) valuesVisited iv =
     (if v \<in> valuesVisited
      then collectIntermediateValues F scc ivIntermediateValues valuesVisited iv
      else collectIntermediateValues F scc
             (ivIntermediateValues @ internalDataProducers scc v)
             (insert v valuesVisited) (classify F v iv))"
  by pat_completeness auto
termination
proof (relation "measures
    [\<lambda>(F, scc, queue, visited, iv). card ((set (internalNodes scc) \<union> set queue) - visited),
     \<lambda>(F, scc, queue, visited, iv). length queue]")
  show "wf (measures
    [\<lambda>(F :: Function, scc, queue, visited, iv :: 'c InductionVariable).
        card ((set (internalNodes scc) \<union> set queue) - visited),
     \<lambda>(F, scc, queue, visited, iv). length queue])"
    by simp
next
  fix F :: Function and scc :: SCC and v :: Value and queue :: "Value list"
    and visited :: "Value set" and iv :: "'c InductionVariable"
  assume "v \<in> visited"
  then have "(set (internalNodes scc) \<union> set queue) - visited
        = (set (internalNodes scc) \<union> set (v # queue)) - visited"
    by auto
  then show "((F, scc, queue, visited, iv), (F, scc, v # queue, visited, iv))
    \<in> measures
        [\<lambda>(F, scc, queue, visited, iv). card ((set (internalNodes scc) \<union> set queue) - visited),
         \<lambda>(F, scc, queue, visited, iv). length queue]"
    by simp
next
  fix F :: Function and scc :: SCC and v :: Value and queue :: "Value list"
    and visited :: "Value set" and iv :: "'c InductionVariable"
  assume nv: "v \<notin> visited"
  let ?new = "(set (internalNodes scc) \<union> set (queue @ internalDataProducers scc v))
               - insert v visited"
  let ?old = "(set (internalNodes scc) \<union> set (v # queue)) - visited"
  have "set (internalDataProducers scc v) \<subseteq> set (internalNodes scc)"
    by (auto simp: internalDataProducers_def isInternal_def)
  then have "?new \<subseteq> ?old - {v}" by auto
  moreover have "v \<in> ?old" using nv by simp
  ultimately have "?new \<subset> ?old" by blast
  moreover have "finite ?old" by simp
  ultimately have "card ?new < card ?old" by (simp add: psubset_card_mono)
  then show "((F, scc, queue @ internalDataProducers scc v, insert v visited, classify F v iv),
              (F, scc, v # queue, visited, iv))
    \<in> measures
        [\<lambda>(F, scc, queue, visited, iv). card ((set (internalNodes scc) \<union> set queue) - visited),
         \<lambda>(F, scc, queue, visited, iv). length queue]"
    by simp
qed

text \<open>The scan of the incoming blocks of the header PHI: the first incoming value whose
  block is not a block of the loop, if there is one.\<close>

fun findStartValue :: "BasicBlock set \<Rightarrow> (Value \<times> BasicBlock) list \<Rightarrow> Value option" where
  "findStartValue bbs [] = None"
| "findStartValue bbs ((incomingValue, incomingBB) # rest) =
     (if incomingBB \<notin> bbs then Some incomingValue else findStartValue bbs rest)"

fun incomingOf :: "ValueKind \<Rightarrow> (Value \<times> BasicBlock) list" where
  "incomingOf (PHINode incoming) = incoming"
| "incomingOf _ = []"

text \<open>The \<^verbatim>\<open>switch\<close> on the type of the step recurrence.\<close>

fun stepOfSCEV :: "'c SCEV \<Rightarrow> 'c option" where
  "stepOfSCEV (scConstant c) = Some c"
| "stepOfSCEV _ = None"

text \<open>\<^verbatim>\<open>InductionVariable::InductionVariable(LS, SE, headerPHI, scc)\<close>. Scalar evolution is
  the function \<open>SE\<close> (\<open>None\<close> for a null \<^verbatim>\<open>SCEV*\<close>).\<close>

definition InductionVariable_new ::
  "Function \<Rightarrow> LoopSummary \<Rightarrow> (Value \<Rightarrow> 'c SCEV option) \<Rightarrow> Value \<Rightarrow> SCC
     \<Rightarrow> error + 'c InductionVariable" where
  "InductionVariable_new F LS SE phi scc =
     (if \<not> hasNode scc phi then Inl NullPointer
      else
        let iv0 = \<lparr>headerPHI = phi, PHIs = {}, accumulators = {}, allInstructions = {},
                   startValue = None, stepSize = None\<rparr>;
            iv1 = collectIntermediateValues F scc [phi] {} iv0;
            iv2 = iv1\<lparr>startValue :=
                         findStartValue (getBasicBlocks LS) (incomingOf (valueAt F phi))\<rparr>
        in (case SE phi of
              None \<Rightarrow> Inl NullPointer
            | Some (scAddRecExpr start stepSCEV) \<Rightarrow> Inr (iv2\<lparr>stepSize := stepOfSCEV stepSCEV\<rparr>)
            | Some _ \<Rightarrow> Inl AssertionFailed))"

section \<open>LoopGoverningIVAttribution\<close>

text \<open>The fields of the attribution. The constructor starts with \<^verbatim>\<open>headerCmp\<close> null, the
  derivation empty and \<^verbatim>\<open>isWellFormed\<close> false; \<^verbatim>\<open>headerBr\<close>, \<^verbatim>\<open>conditionValue\<close> and
  \<^verbatim>\<open>exitBlock\<close> are assigned on the way, and every \<^verbatim>\<open>return\<close> leaves the object as it is
  at that point.\<close>

record LoopGoverningIVAttribution =
  headerBr :: "Value option"
  headerCmp :: "Value option"
  conditionValue :: "Value option"
  exitBlock :: "BasicBlock option"
  conditionValueDerivation :: "Value set"
  isWellFormed :: bool

text \<open>A loop body either falls through to the next iteration or returns from the
  constructor; both carry the derivation set collected so far.\<close>

datatype 'a flow = Next 'a | Return 'a

text \<open>The \<^verbatim>\<open>for (auto edge : scc.fetchNode(value)->getIncomingEdges())\<close> loop: every
  internal producer must be an instruction; one that belongs to the induction variable
  ends the constructor, any other is inserted into \<^verbatim>\<open>conditionValueDerivation\<close>.\<close>

fun scanProducers ::
  "Function \<Rightarrow> SCC \<Rightarrow> Value set \<Rightarrow> DGEdge list \<Rightarrow> Value set \<Rightarrow> error + Value set flow" where
  "scanProducers F scc ivInstructions [] derivation = Inr (Next derivation)"
| "scanProducers F scc ivInstructions (edge # edges) derivation =
     (let outgoingValue = getOutgoingT edge in
      if isInternal scc outgoingValue then
        if \<not> isInstruction (valueAt F outgoingValue) then Inl AssertionFailed
        else if outgoingValue \<in> ivInstructions then Inr (Return derivation)
        else scanProducers F scc ivInstructions edges (insert outgoingValue derivation)
      else scanProducers F scc ivInstructions edges derivation)"

text \<open>The \<^verbatim>\<open>while (!conditionDerivation.empty())\<close> loop. The queue is popped at the head;
  the body pushes nothing onto it.\<close>

fun drainConditionDerivation ::
  "Function \<Rightarrow> SCC \<Rightarrow> Value set \<Rightarrow> Value list \<Rightarrow> Value set \<Rightarrow> error + Value set flow" where
  "drainConditionDerivation F scc ivInstructions [] derivation = Inr (Next derivation)"
| "drainConditionDerivation F scc ivInstructions (v # conditionDerivation) derivation =
     (case scanProducers F scc ivInstructions (getIncomingEdges scc v) derivation of
        Inl e \<Rightarrow> Inl e
      | Inr (Return derivation') \<Rightarrow> Inr (Return derivation')
      | Inr (Next derivation') \<Rightarrow>
          drainConditionDerivation F scc ivInstructions conditionDerivation derivation')"

text \<open>The body of the loop over \<^verbatim>\<open>scc.internalNodePairs()\<close>: \<open>True\<close> where the source
  says \<^verbatim>\<open>continue\<close>, \<open>False\<close> where it reaches \<^verbatim>\<open>return\<close>.\<close>

definition isAccountedFor ::
  "Function \<Rightarrow> Value set \<Rightarrow> Value set \<Rightarrow> Value \<Rightarrow> Value \<Rightarrow> Value \<Rightarrow> bool" where
  "isAccountedFor F ivInstructions derivation cmp br v =
     (if isInstruction (valueAt F v) then
        if v \<in> ivInstructions then True
        else if v \<in> derivation then True
        else (case valueAt F v of
                Cmp _ \<Rightarrow> v = cmp
              | Br b \<Rightarrow> v = br \<or> isUnconditional b
              | GetElementPtrInst \<Rightarrow> True
              | PHINode _ \<Rightarrow> True
              | _ \<Rightarrow> False)
      else False)"

fun allAccountedFor ::
  "Function \<Rightarrow> Value set \<Rightarrow> Value set \<Rightarrow> Value \<Rightarrow> Value \<Rightarrow> Value list \<Rightarrow> bool" where
  "allAccountedFor F ivInstructions derivation cmp br [] = True"
| "allAccountedFor F ivInstructions derivation cmp br (v # internalNodePairs) =
     (if isAccountedFor F ivInstructions derivation cmp br v
      then allAccountedFor F ivInstructions derivation cmp br internalNodePairs
      else False)"

text \<open>The constructor from the test \<^verbatim>\<open>scc.isInternal(conditionValue)\<close> to its end.\<close>

definition deriveAndAccount ::
  "Function \<Rightarrow> 'c InductionVariable \<Rightarrow> SCC \<Rightarrow> Value \<Rightarrow> Value \<Rightarrow> Value
     \<Rightarrow> LoopGoverningIVAttribution \<Rightarrow> error + LoopGoverningIVAttribution" where
  "deriveAndAccount F iv scc cmp br condValue a =
     (case (if isInternal scc condValue then
              if \<not> isInstruction (valueAt F condValue) then Inl AssertionFailed
              else drainConditionDerivation F scc (allInstructions iv) [condValue]
                     (conditionValueDerivation a)
            else Inr (Next (conditionValueDerivation a))) of
        Inl e \<Rightarrow> Inl e
      | Inr (Return derivation) \<Rightarrow> Inr (a\<lparr>conditionValueDerivation := derivation\<rparr>)
      | Inr (Next derivation) \<Rightarrow>
          Inr (a\<lparr>conditionValueDerivation := derivation,
                 isWellFormed := allAccountedFor F (allInstructions iv) derivation cmp br
                                   (internalNodes scc)\<rparr>))"

text \<open>\<^verbatim>\<open>LoopGoverningIVAttribution::LoopGoverningIVAttribution(iv, scc, exitBlocks)\<close>.
  \<^verbatim>\<open>getCondition\<close> asserts that the branch is conditional.\<close>

definition LoopGoverningIVAttribution_new ::
  "Function \<Rightarrow> 'c InductionVariable \<Rightarrow> SCC \<Rightarrow> BasicBlock list
     \<Rightarrow> error + LoopGoverningIVAttribution" where
  "LoopGoverningIVAttribution_new F iv scc exitBlocks =
     (let a0 = \<lparr>headerBr = None, headerCmp = None, conditionValue = None, exitBlock = None,
                conditionValueDerivation = {}, isWellFormed = False\<rparr>;
          headerTerminator = getTerminator F (getParent F (headerPHI iv))
      in case valueAt F headerTerminator of
           Br b \<Rightarrow>
             (let a1 = a0\<lparr>headerBr := Some headerTerminator\<rparr> in
              case b of
                Unconditional _ \<Rightarrow> Inl AssertionFailed
              | Conditional headerCondition successor0 successor1 \<Rightarrow>
                  (case valueAt F headerCondition of
                     Cmp c \<Rightarrow>
                       (let a2 = a1\<lparr>headerCmp := Some headerCondition\<rparr>;
                            opL = getOperand0 c; opR = getOperand1 c
                        in if \<not> ((opL = headerPHI iv) \<noteq> (opR = headerPHI iv)) then Inr a2
                           else
                             let condValue = (if opL = headerPHI iv then opR else opL);
                                 a3 = a2\<lparr>conditionValue := Some condValue\<rparr>
                             in if successor0 \<in> set exitBlocks then
                                  deriveAndAccount F iv scc headerCondition headerTerminator
                                    condValue (a3\<lparr>exitBlock := Some successor0\<rparr>)
                                else if successor1 \<in> set exitBlocks then
                                  deriveAndAccount F iv scc headerCondition headerTerminator
                                    condValue (a3\<lparr>exitBlock := Some successor1\<rparr>)
                                else Inr a3)
                   | _ \<Rightarrow> Inr a1))
         | _ \<Rightarrow> Inr a0)"

section \<open>LoopGoverningIVUtility\<close>

record LoopGoverningIVUtility =
  condition :: Value
  doesOriginalCmpInstHaveIVAsLeftOperand :: bool
  conditionValueOrderedDerivation :: "Value list"
  flipOperandsToUseNonStrictPredicate :: bool
  nonStrictPredicate :: Predicate

text \<open>The local \<^verbatim>\<open>exitPredicate\<close> before the \<^verbatim>\<open>switch\<close>: the predicate under which the
  loop exits, with the induction variable as the left operand.\<close>

definition exitPredicateOf :: "bool \<Rightarrow> bool \<Rightarrow> Predicate \<Rightarrow> Predicate" where
  "exitPredicateOf conditionExitsOnTrue ivIsLeftOperand p =
     (let exitPredicate = (if conditionExitsOnTrue then p else getInversePredicate p)
      in if ivIsLeftOperand then exitPredicate else getSwappedPredicate exitPredicate)"

text \<open>The \<^verbatim>\<open>switch (exitPredicate)\<close> with its two asserts on the sign of the step.\<close>

fun chooseNonStrictPredicate :: "bool \<Rightarrow> Predicate \<Rightarrow> error + Predicate" where
  "chooseNonStrictPredicate isStepValuePositive ICMP_NE = Inr ICMP_NE"
| "chooseNonStrictPredicate isStepValuePositive ICMP_EQ =
     Inr (if isStepValuePositive then ICMP_UGE else ICMP_ULE)"
| "chooseNonStrictPredicate isStepValuePositive ICMP_SLE =
     (if \<not> isStepValuePositive then Inr ICMP_SLE else Inl AssertionFailed)"
| "chooseNonStrictPredicate isStepValuePositive ICMP_SLT =
     (if \<not> isStepValuePositive then Inr ICMP_SLT else Inl AssertionFailed)"
| "chooseNonStrictPredicate isStepValuePositive ICMP_ULT =
     (if \<not> isStepValuePositive then Inr ICMP_ULT else Inl AssertionFailed)"
| "chooseNonStrictPredicate isStepValuePositive ICMP_ULE =
     (if \<not> isStepValuePositive then Inr ICMP_ULE else Inl AssertionFailed)"
| "chooseNonStrictPredicate isStepValuePositive ICMP_UGT =
     (if isStepValuePositive then Inr ICMP_UGT else Inl AssertionFailed)"
| "chooseNonStrictPredicate isStepValuePositive ICMP_UGE =
     (if isStepValuePositive then Inr ICMP_UGE else Inl AssertionFailed)"
| "chooseNonStrictPredicate isStepValuePositive ICMP_SGT =
     (if isStepValuePositive then Inr ICMP_SGT else Inl AssertionFailed)"
| "chooseNonStrictPredicate isStepValuePositive ICMP_SGE =
     (if isStepValuePositive then Inr ICMP_SGE else Inl AssertionFailed)"

text \<open>\<^verbatim>\<open>LoopGoverningIVUtility::LoopGoverningIVUtility(IV, attribution)\<close>. The step is a
  \<^verbatim>\<open>ConstantInt\<close>, a word; \<^verbatim>\<open>isa<ConstantInt>\<close> asserts on a null step.\<close>

definition LoopGoverningIVUtility_new ::
  "Function \<Rightarrow> ('w::len) word InductionVariable \<Rightarrow> LoopGoverningIVAttribution
     \<Rightarrow> error + LoopGoverningIVUtility" where
  "LoopGoverningIVUtility_new F iv attribution =
     (case headerCmp attribution of
        None \<Rightarrow> Inl NullPointer
      | Some cond \<Rightarrow>
         (case valueAt F cond of
            Cmp c \<Rightarrow>
              (let ivIsLeft = (getOperand0 c = headerPHI iv);
                   ordered = filter (\<lambda>I. I \<in> conditionValueDerivation attribution)
                               (instructionsOf F (getParent F cond))
               in case stepSize iv of
                    None \<Rightarrow> Inl AssertionFailed
                  | Some step \<Rightarrow>
                     (case headerBr attribution of
                        None \<Rightarrow> Inl NullPointer
                      | Some br \<Rightarrow>
                         (case valueAt F br of
                            Br b \<Rightarrow>
                              (let conditionExitsOnTrue =
                                     (Some (getSuccessor0 b) = exitBlock attribution);
                                   exitPredicate =
                                     exitPredicateOf conditionExitsOnTrue ivIsLeft (getPredicate c)
                               in case chooseNonStrictPredicate (isStrictlyPositive step)
                                         exitPredicate of
                                    Inl e \<Rightarrow> Inl e
                                  | Inr p \<Rightarrow>
                                      Inr \<lparr>condition = cond,
                                           doesOriginalCmpInstHaveIVAsLeftOperand = ivIsLeft,
                                           conditionValueOrderedDerivation = ordered,
                                           flipOperandsToUseNonStrictPredicate = \<not> ivIsLeft,
                                           nonStrictPredicate = p\<rparr>)
                          | _ \<Rightarrow> Inl AssertionFailed)))
          | _ \<Rightarrow> Inl AssertionFailed))"

text \<open>\<^verbatim>\<open>normalizedExitPredicate\<close> names the value of the local \<^verbatim>\<open>exitPredicate\<close> that the
  constructor switches on, when the comparison and branch pointers of the attribution are
  set.\<close>

definition normalizedExitPredicate ::
  "Function \<Rightarrow> 'c InductionVariable \<Rightarrow> LoopGoverningIVAttribution \<Rightarrow> Predicate option" where
  "normalizedExitPredicate F iv attribution =
     (case headerCmp attribution of
        None \<Rightarrow> None
      | Some cond \<Rightarrow>
         (case valueAt F cond of
            Cmp c \<Rightarrow>
              (case headerBr attribution of
                 None \<Rightarrow> None
               | Some br \<Rightarrow>
                  (case valueAt F br of
                     Br b \<Rightarrow>
                       Some (exitPredicateOf (Some (getSuccessor0 b) = exitBlock attribution)
                               (getOperand0 c = headerPHI iv) (getPredicate c))
                   | _ \<Rightarrow> None))
          | _ \<Rightarrow> None))"

text \<open>\<^verbatim>\<open>updateConditionAndBranchToCatchIteratingPastExitValue(cmpToUpdate, branchInst,
  exitBlock)\<close> mutates the comparison and the branch it is given; the model returns both.
  \<^verbatim>\<open>setSuccessor(1, ...)\<close> asserts on a branch with one successor.\<close>

definition updateConditionAndBranchToCatchIteratingPastExitValue ::
  "LoopGoverningIVUtility \<Rightarrow> CmpInst \<Rightarrow> BranchInst \<Rightarrow> BasicBlock
     \<Rightarrow> error + CmpInst \<times> BranchInst" where
  "updateConditionAndBranchToCatchIteratingPastExitValue u cmpToUpdate branchInst exitB =
     (let cmp1 = (if flipOperandsToUseNonStrictPredicate u
                  then cmpToUpdate\<lparr>getOperand0 := getOperand1 cmpToUpdate,
                                    getOperand1 := getOperand0 cmpToUpdate\<rparr>
                  else cmpToUpdate);
          cmp2 = cmp1\<lparr>getPredicate := nonStrictPredicate u\<rparr>
      in if getSuccessor0 branchInst \<noteq> exitB then
           (case branchInst of
              Conditional c successor0 successor1 \<Rightarrow> Inr (cmp2, Conditional c exitB successor0)
            | Unconditional _ \<Rightarrow> Inl AssertionFailed)
         else Inr (cmp2, branchInst))"

section \<open>InductionVariables\<close>

text \<open>The two maps of the analysis. A \<^verbatim>\<open>LoopSummary*\<close> key is the summary it points to,
  an \<^verbatim>\<open>InductionVariable*\<close> the object it points to (the header PHIs of a loop are
  distinct, so two objects made for one loop differ in \<^verbatim>\<open>headerPHI\<close>).\<close>

record 'c InductionVariables =
  loopToIVsMap :: "LoopSummary \<rightharpoonup> 'c InductionVariable set"
  loopToGoverningIVMap :: "LoopSummary \<rightharpoonup> 'c InductionVariable"

text \<open>\<^verbatim>\<open>loopToIVsMap[loop]\<close>: \<^verbatim>\<open>operator[]\<close> makes an empty set for a missing key.\<close>

definition ivsOrEmpty :: "'c InductionVariables \<Rightarrow> LoopSummary \<Rightarrow> 'c InductionVariable set" where
  "ivsOrEmpty st loop = (case loopToIVsMap st loop of None \<Rightarrow> {} | Some S \<Rightarrow> S)"

text \<open>The loop over \<^verbatim>\<open>loop->getHeader()->phis()\<close>. The component graph is the function
  \<open>sccdag\<close> (\<^verbatim>\<open>sccOfValue\<close>, \<open>None\<close> for a null result, which the constructor call
  dereferences).\<close>

fun scanHeaderPHIs ::
  "Function \<Rightarrow> LoopsSummary \<Rightarrow> (Value \<Rightarrow> 'c SCEV option) \<Rightarrow> (Value \<Rightarrow> SCC option)
     \<Rightarrow> LoopSummary \<Rightarrow> Value list \<Rightarrow> 'c InductionVariables \<Rightarrow> error + 'c InductionVariables" where
  "scanHeaderPHIs F LIS SE sccdag loop [] st = Inr st"
| "scanHeaderPHIs F LIS SE sccdag loop (phi # rest) st =
     (case SE phi of
        None \<Rightarrow> scanHeaderPHIs F LIS SE sccdag loop rest st
      | Some scev \<Rightarrow>
          if \<not> isAddRecExpr scev then scanHeaderPHIs F LIS SE sccdag loop rest st
          else
            (case sccdag phi of
               None \<Rightarrow> Inl NullPointer
             | Some sccContainingIV \<Rightarrow>
                (case InductionVariable_new F loop SE phi sccContainingIV of
                   Inl e \<Rightarrow> Inl e
                 | Inr IV \<Rightarrow>
                     if stepSize IV = None then scanHeaderPHIs F LIS SE sccdag loop rest st
                     else
                       let st1 = st\<lparr>loopToIVsMap :=
                                       (loopToIVsMap st)(loop \<mapsto> insert IV (ivsOrEmpty st loop))\<rparr>
                       in (case LoopGoverningIVAttribution_new F IV sccContainingIV
                                  (rootLoopExitBasicBlocks LIS) of
                             Inl e \<Rightarrow> Inl e
                           | Inr attribution \<Rightarrow>
                               if isWellFormed attribution
                               then scanHeaderPHIs F LIS SE sccdag loop rest
                                      (st1\<lparr>loopToGoverningIVMap :=
                                              (loopToGoverningIVMap st1)(loop \<mapsto> IV)\<rparr>)
                               else scanHeaderPHIs F LIS SE sccdag loop rest st1))))"

text \<open>The loop over \<^verbatim>\<open>LIS.loops\<close>: the set of the loop is reset to the empty set, then
  the header PHIs are scanned. (\<^verbatim>\<open>LI.getLoopFor\<close> is called and its result is not used.)\<close>

fun scanLoops ::
  "Function \<Rightarrow> LoopsSummary \<Rightarrow> (Value \<Rightarrow> 'c SCEV option) \<Rightarrow> (Value \<Rightarrow> SCC option)
     \<Rightarrow> LoopSummary list \<Rightarrow> 'c InductionVariables \<Rightarrow> error + 'c InductionVariables" where
  "scanLoops F LIS SE sccdag [] st = Inr st"
| "scanLoops F LIS SE sccdag (loop # rest) st =
     (case scanHeaderPHIs F LIS SE sccdag loop (phis F (getHeader loop))
             (st\<lparr>loopToIVsMap := (loopToIVsMap st)(loop \<mapsto> {})\<rparr>) of
        Inl e \<Rightarrow> Inl e
      | Inr st' \<Rightarrow> scanLoops F LIS SE sccdag rest st')"

definition InductionVariables_new ::
  "Function \<Rightarrow> LoopsSummary \<Rightarrow> (Value \<Rightarrow> 'c SCEV option) \<Rightarrow> (Value \<Rightarrow> SCC option)
     \<Rightarrow> error + 'c InductionVariables" where
  "InductionVariables_new F LIS SE sccdag =
     scanLoops F LIS SE sccdag (loops LIS)
       \<lparr>loopToIVsMap = Map.empty, loopToGoverningIVMap = Map.empty\<rparr>"

text \<open>\<^verbatim>\<open>getInductionVariables\<close> is \<^verbatim>\<open>loopToIVsMap.at(&LS)\<close>, which throws on a missing key;
  \<^verbatim>\<open>getLoopGoverningInductionVariable\<close> returns \<^verbatim>\<open>nullptr\<close> on a missing key.\<close>

definition getInductionVariables ::
  "'c InductionVariables \<Rightarrow> LoopSummary \<Rightarrow> error + 'c InductionVariable set" where
  "getInductionVariables ivs LS =
     (case loopToIVsMap ivs LS of None \<Rightarrow> Inl OutOfRange | Some S \<Rightarrow> Inr S)"

definition getLoopGoverningInductionVariable ::
  "'c InductionVariables \<Rightarrow> LoopSummary \<Rightarrow> 'c InductionVariable option" where
  "getLoopGoverningInductionVariable ivs LS =
     (if loopToGoverningIVMap ivs LS = None then None else loopToGoverningIVMap ivs LS)"

text \<open>
  For stating what the analysis computes, the body of the loop over the header PHIs is
  also given in two parts: \<open>analysePHI\<close> is what one iteration finds out about its PHI
  (nothing when the iteration ends in \<^verbatim>\<open>continue\<close>, otherwise the induction variable and
  whether its attribution is well formed), and \<open>register\<close> is what the iteration then does
  to the two maps. Lemma \<open>scanHeaderPHIs_step\<close> shows that the loop above is the
  composition of the two.
\<close>

definition analysePHI ::
  "Function \<Rightarrow> LoopsSummary \<Rightarrow> (Value \<Rightarrow> 'c SCEV option) \<Rightarrow> (Value \<Rightarrow> SCC option)
     \<Rightarrow> LoopSummary \<Rightarrow> Value \<Rightarrow> error + ('c InductionVariable \<times> bool) option" where
  "analysePHI F LIS SE sccdag loop phi =
     (case SE phi of
        None \<Rightarrow> Inr None
      | Some scev \<Rightarrow>
          if \<not> isAddRecExpr scev then Inr None
          else
            (case sccdag phi of
               None \<Rightarrow> Inl NullPointer
             | Some sccContainingIV \<Rightarrow>
                (case InductionVariable_new F loop SE phi sccContainingIV of
                   Inl e \<Rightarrow> Inl e
                 | Inr IV \<Rightarrow>
                     if stepSize IV = None then Inr None
                     else
                       (case LoopGoverningIVAttribution_new F IV sccContainingIV
                               (rootLoopExitBasicBlocks LIS) of
                          Inl e \<Rightarrow> Inl e
                        | Inr attribution \<Rightarrow> Inr (Some (IV, isWellFormed attribution))))))"

text \<open>The induction variables some PHI of the list gets registered, and those among
  them whose attribution is well formed. They serve to state the invariant of the two
  maps and are not part of the program.\<close>

definition registeredIVs ::
  "Function \<Rightarrow> LoopsSummary \<Rightarrow> (Value \<Rightarrow> 'c SCEV option) \<Rightarrow> (Value \<Rightarrow> SCC option)
     \<Rightarrow> LoopSummary \<Rightarrow> Value list \<Rightarrow> 'c InductionVariable set" where
  "registeredIVs F LIS SE sccdag loop ps =
     {IV. \<exists>phi governs. phi \<in> set ps \<and> analysePHI F LIS SE sccdag loop phi = Inr (Some (IV, governs))}"

definition governingIVs ::
  "Function \<Rightarrow> LoopsSummary \<Rightarrow> (Value \<Rightarrow> 'c SCEV option) \<Rightarrow> (Value \<Rightarrow> SCC option)
     \<Rightarrow> LoopSummary \<Rightarrow> Value list \<Rightarrow> 'c InductionVariable set" where
  "governingIVs F LIS SE sccdag loop ps =
     {IV. \<exists>phi. phi \<in> set ps \<and> analysePHI F LIS SE sccdag loop phi = Inr (Some (IV, True))}"

definition register ::
  "LoopSummary \<Rightarrow> 'c InductionVariable \<Rightarrow> bool \<Rightarrow> 'c InductionVariables \<Rightarrow> 'c InductionVariables" where
  "register loop IV governs st =
     (let st1 = st\<lparr>loopToIVsMap := (loopToIVsMap st)(loop \<mapsto> insert IV (ivsOrEmpty st loop))\<rparr>
      in if governs
         then st1\<lparr>loopToGoverningIVMap := (loopToGoverningIVMap st1)(loop \<mapsto> IV)\<rparr>
         else st1)"

text \<open>The invariant of the two maps: the set of a loop is the set its header PHIs get
  registered, and a governing induction variable of a loop is one of those whose
  attribution is well formed, in a loop that has a set.\<close>

definition consistent ::
  "Function \<Rightarrow> LoopsSummary \<Rightarrow> (Value \<Rightarrow> 'c SCEV option) \<Rightarrow> (Value \<Rightarrow> SCC option)
     \<Rightarrow> 'c InductionVariables \<Rightarrow> bool" where
  "consistent F LIS SE sccdag st \<longleftrightarrow>
     (\<forall>l. (\<forall>S. loopToIVsMap st l = Some S \<longrightarrow>
               S = registeredIVs F LIS SE sccdag l (phis F (getHeader l)))
        \<and> (\<forall>g. loopToGoverningIVMap st l = Some g \<longrightarrow>
               g \<in> governingIVs F LIS SE sccdag l (phis F (getHeader l))
               \<and> loopToIVsMap st l \<noteq> None))"

section \<open>A loop to run the analysis on\<close>

text \<open>
  The loop below is used wherever a statement is evaluated on a concrete input. Blocks:
  preheader 0, header 1, body 2, exit 3. Values, by address:
  \<^verbatim>\<open>
  header:  10: i     = phi [20, preheader], [14, body]
           11: n     = phi [21, preheader], [15, body]
           12: cmp   = icmp <the comparison c>
           13: br cmp, exit, body
  body:    14: inext = add i, 1
           15: a     = add inext, 7
           16: br header
  \<close>
  20 and 21 are constants. Every instruction of the loop is control dependent on the
  branch 13; the comparison depends on its two operands.
\<close>

definition demo_F :: "CmpInst \<Rightarrow> Function" where
  "demo_F c =
     \<lparr>valueAt = (\<lambda>v.
         if v = 10 then PHINode [(20, 0), (14, 2)]
         else if v = 11 then PHINode [(21, 0), (15, 2)]
         else if v = 12 then Cmp c
         else if v = 13 then Br (Conditional 12 3 2)
         else if v = 14 then OtherInstruction
         else if v = 15 then OtherInstruction
         else if v = 16 then Br (Unconditional 1)
         else NotAnInstruction),
      getParent = (\<lambda>v. if v = 14 \<or> v = 15 \<or> v = 16 then 2 else 1),
      getTerminator = (\<lambda>b. if b = 1 then 13 else 16),
      instructionsOf = (\<lambda>b. if b = 1 then [10, 11, 12, 13]
                             else if b = 2 then [14, 15, 16] else [])\<rparr>"

definition demo_edges :: "CmpInst \<Rightarrow> Value \<Rightarrow> DGEdge list" where
  "demo_edges c v =
     (if v = 10 then [\<lparr>getOutgoingT = 14, isDataDependence = True\<rparr>,
                      \<lparr>getOutgoingT = 20, isDataDependence = True\<rparr>,
                      \<lparr>getOutgoingT = 13, isDataDependence = False\<rparr>]
      else if v = 11 then [\<lparr>getOutgoingT = 15, isDataDependence = True\<rparr>,
                           \<lparr>getOutgoingT = 21, isDataDependence = True\<rparr>,
                           \<lparr>getOutgoingT = 13, isDataDependence = False\<rparr>]
      else if v = 12 then [\<lparr>getOutgoingT = getOperand0 c, isDataDependence = True\<rparr>,
                           \<lparr>getOutgoingT = getOperand1 c, isDataDependence = True\<rparr>]
      else if v = 13 then [\<lparr>getOutgoingT = 12, isDataDependence = True\<rparr>]
      else if v = 14 then [\<lparr>getOutgoingT = 10, isDataDependence = True\<rparr>,
                           \<lparr>getOutgoingT = 13, isDataDependence = False\<rparr>]
      else if v = 15 then [\<lparr>getOutgoingT = 14, isDataDependence = True\<rparr>,
                           \<lparr>getOutgoingT = 13, isDataDependence = False\<rparr>]
      else [])"

text \<open>The component of \<open>i\<close> when the comparison tests \<open>i\<close> against the constant 21, and
  the component when it tests \<open>i\<close> against \<open>n\<close>.\<close>

definition demo_scc_const :: "CmpInst \<Rightarrow> SCC" where
  "demo_scc_const c = \<lparr>internalNodes = [10, 12, 13, 14], externalNodes = [20, 21],
                       getIncomingEdges = demo_edges c\<rparr>"

definition demo_scc_n :: "CmpInst \<Rightarrow> SCC" where
  "demo_scc_n c = \<lparr>internalNodes = [10, 11, 12, 13, 14, 15], externalNodes = [20, 21],
                   getIncomingEdges = demo_edges c\<rparr>"

text \<open>Scalar evolution: \<open>i\<close> is the recurrence that starts at 0 with the given step; no
  other value has one.\<close>

definition demo_SE :: "32 word SCEV \<Rightarrow> Value \<Rightarrow> 32 word SCEV option" where
  "demo_SE stepSCEV v =
     (if v = 10 then Some (scAddRecExpr (scConstant 0) stepSCEV) else Some scUnknown)"

definition demo_loop :: LoopSummary where
  "demo_loop = \<lparr>getHeader = 1, getBasicBlocks = {1, 2}\<rparr>"

definition demo_LIS :: "BasicBlock list \<Rightarrow> LoopsSummary" where
  "demo_LIS exits = \<lparr>loops = [demo_loop], rootLoopExitBasicBlocks = exits\<rparr>"

definition demo_iv :: "32 word option \<Rightarrow> 32 word InductionVariable" where
  "demo_iv step = \<lparr>headerPHI = 10, PHIs = {10}, accumulators = {14}, allInstructions = {10, 14},
                   startValue = Some 20, stepSize = step\<rparr>"

text \<open>The comparison of \<open>i\<close> with the constant 21 under a predicate, and the comparison
  \<open>i == n\<close>.\<close>

definition i_vs_21 :: "Predicate \<Rightarrow> CmpInst" where
  "i_vs_21 p = \<lparr>getPredicate = p, getOperand0 = 10, getOperand1 = 21\<rparr>"

definition i_eq_n :: CmpInst where
  "i_eq_n = \<lparr>getPredicate = ICMP_EQ, getOperand0 = 10, getOperand1 = 11\<rparr>"

section \<open>The task queue after invalidation\<close>

lemma invalidate_not_valid: "\<not> m_valid (invalidate q)"
  by (simp add: invalidate_def)

lemma reaches_stays_invalid:
  assumes "reaches q0 q" and "\<not> m_valid q0"
  shows "\<not> m_valid q"
  using assms
proof (induction rule: reaches.induct)
  case reaches_refl
  then show ?case by simp
next
  case (reaches_push q v)
  then show ?case by (simp add: push_def internal_push_def)
next
  case (reaches_waitPush q v n r q')
  then show ?case by (auto simp: waitPush_def split: if_splits)
next
  case (reaches_tryPop q r out q')
  then show ?case by (auto simp: tryPop_def split: if_splits)
next
  case (reaches_waitPop q r out q')
  then show ?case by (auto simp: waitPop_def split: if_splits)
next
  case (reaches_waitPop_void q r q')
  then show ?case by (auto simp: waitPop_void_def split: if_splits)
next
  case (reaches_clear q)
  then show ?case by (simp add: clear_def)
next
  case (reaches_invalidate q)
  then show ?case by (simp add: invalidate_def)
qed

text \<open>
  C9 (as stated: after \<^verbatim>\<open>invalidate\<close>, each of push, waitPush, tryPop and waitPop fails and
  leaves the contents unchanged) does not hold for \<^verbatim>\<open>push\<close>: on the invalidated empty
  queue, \<^verbatim>\<open>push\<close> still appends its value.
\<close>

theorem C9_push_after_invalidate_counterexample:
  "m_queue (push (7::nat) (invalidate \<lparr>m_valid = True, m_queue = []\<rparr>))
     \<noteq> m_queue (invalidate \<lparr>m_valid = True, m_queue = []\<rparr>)"
  by (simp add: push_def internal_push_def invalidate_def)

text \<open>
  C9 (amended): in every state reached after \<^verbatim>\<open>invalidate\<close>, each of waitPush, tryPop and
  waitPop (both overloads) returns, reports failure, writes no value out and leaves the
  queue unchanged.
\<close>

theorem C9_invalidated_operations_fail:
  assumes "reaches (invalidate q0) q"
  shows "waitPush v n q = Some (False, q)
       \<and> tryPop q = (False, None, q)
       \<and> waitPop q = Some (False, None, q)
       \<and> waitPop_void q = Some (False, q)"
proof -
  have "\<not> m_valid q"
    using assms invalidate_not_valid by (rule reaches_stays_invalid)
  then show ?thesis
    by (simp add: waitPush_def tryPop_def waitPop_def waitPop_void_def)
qed

theorem C9_invalidated_operations_fail_witness:
  "waitPush (9::nat) 4 (push 5 (invalidate \<lparr>m_valid = True, m_queue = [1, 2]\<rparr>))
     = Some (False, \<lparr>m_valid = False, m_queue = [1, 2, 5]\<rparr>)
   \<and> tryPop (push 5 (invalidate \<lparr>m_valid = True, m_queue = [1, 2::nat]\<rparr>))
     = (False, None, \<lparr>m_valid = False, m_queue = [1, 2, 5]\<rparr>)
   \<and> waitPop (push 5 (invalidate \<lparr>m_valid = True, m_queue = [1, 2::nat]\<rparr>))
     = Some (False, None, \<lparr>m_valid = False, m_queue = [1, 2, 5]\<rparr>)"
proof -
  let ?q0 = "\<lparr>m_valid = True, m_queue = [1, 2::nat]\<rparr>"
  have r: "reaches (invalidate ?q0) (push 5 (invalidate ?q0))"
    by (rule reaches_push) (rule reaches_refl)
  have e: "push 5 (invalidate ?q0) = \<lparr>m_valid = False, m_queue = [1, 2, 5]\<rparr>"
    by (simp add: push_def internal_push_def invalidate_def)
  show ?thesis
    using C9_invalidated_operations_fail [OF r, of 9 4] unfolding e by blast
qed

section \<open>The analysis on the loop\<close>

lemma demo_iv_const:
  "InductionVariable_new (demo_F c) demo_loop (demo_SE s) 10 (demo_scc_const c)
     = Inr (demo_iv (stepOfSCEV s))"
  by (simp add: InductionVariable_new_def hasNode_def demo_scc_const_def demo_F_def demo_SE_def
      demo_loop_def internalDataProducers_def demo_edges_def isInternal_def classify_def
      demo_iv_def insert_commute)

lemma demo_iv_n:
  "InductionVariable_new (demo_F c) demo_loop (demo_SE s) 10 (demo_scc_n c)
     = Inr (demo_iv (stepOfSCEV s))"
  by (simp add: InductionVariable_new_def hasNode_def demo_scc_n_def demo_F_def demo_SE_def
      demo_loop_def internalDataProducers_def demo_edges_def isInternal_def classify_def
      demo_iv_def insert_commute)

lemma demo_attribution_const:
  "LoopGoverningIVAttribution_new (demo_F (i_vs_21 p)) (demo_iv s) (demo_scc_const (i_vs_21 p)) [3]
     = Inr \<lparr>headerBr = Some 13, headerCmp = Some 12, conditionValue = Some 21,
            exitBlock = Some 3, conditionValueDerivation = {}, isWellFormed = True\<rparr>"
  by (simp add: LoopGoverningIVAttribution_new_def deriveAndAccount_def demo_F_def demo_iv_def
      demo_scc_const_def i_vs_21_def isInternal_def isAccountedFor_def)

section \<open>The exit predicate of the transform\<close>

lemma isNegative_sint: "isNegative w \<longleftrightarrow> sint w < 0"
  by (simp add: isNegative_def bit_last_iff)

lemma isStrictlyPositive_sint: "isStrictlyPositive w \<longleftrightarrow> 0 < sint w"
proof -
  have "sint w = 0 \<longleftrightarrow> w = 0"
    by (rule signed_eq_0_iff)
  then show ?thesis
    by (auto simp add: isStrictlyPositive_def isNegative_sint)
qed

text \<open>When the comparison and the branch of the attribution are set and the step is a
  constant, the constructor runs the switch on the exit predicate and nothing else can
  stop it.\<close>

lemma utility_switch:
  assumes "normalizedExitPredicate F iv a = Some p" and "stepSize iv = Some step"
  shows "map_sum id nonStrictPredicate (LoopGoverningIVUtility_new F iv a)
           = chooseNonStrictPredicate (isStrictlyPositive step) p"
  using assms
  by (auto simp: normalizedExitPredicate_def LoopGoverningIVUtility_new_def Let_def
      split: option.splits ValueKind.splits sum.splits)

lemma wellFormed_exit_predicate:
  assumes "LoopGoverningIVAttribution_new F iv scc exitBlocks = Inr a" and "isWellFormed a"
  shows "\<exists>p. normalizedExitPredicate F iv a = Some p"
  using assms
  by (auto simp: LoopGoverningIVAttribution_new_def deriveAndAccount_def
      normalizedExitPredicate_def Let_def
      split: option.splits ValueKind.splits BranchInst.splits sum.splits flow.splits if_splits)

text \<open>
  C3: for a well-formed attribution whose exit predicate (exit on true, induction variable
  on the left) is the equality test, the constructor of the transform succeeds and its
  \<^verbatim>\<open>nonStrictPredicate\<close> is the inclusive greater-or-equal \<^verbatim>\<open>ICMP_UGE\<close> when the constant step
  is strictly positive and the inclusive less-or-equal \<^verbatim>\<open>ICMP_ULE\<close> when it is negative.
\<close>

theorem C3_equality_exit_is_widened:
  assumes "LoopGoverningIVAttribution_new F iv scc exitBlocks = Inr a" and "isWellFormed a"
    and "stepSize iv = Some step"
    and "normalizedExitPredicate F iv a = Some ICMP_EQ"
  shows "\<exists>u. LoopGoverningIVUtility_new F iv a = Inr u
           \<and> (0 < sint step \<longrightarrow> nonStrictPredicate u = ICMP_UGE)
           \<and> (sint step < 0 \<longrightarrow> nonStrictPredicate u = ICMP_ULE)"
proof -
  have "map_sum id nonStrictPredicate (LoopGoverningIVUtility_new F iv a)
          = Inr (if 0 < sint step then ICMP_UGE else ICMP_ULE)"
    using utility_switch [OF assms(4) assms(3)] by (simp add: isStrictlyPositive_sint)
  then obtain u where "LoopGoverningIVUtility_new F iv a = Inr u"
    and "nonStrictPredicate u = (if 0 < sint step then ICMP_UGE else ICMP_ULE)"
    by (cases "LoopGoverningIVUtility_new F iv a") auto
  then show ?thesis by auto
qed

text \<open>
  C8: for a well-formed attribution whose exit predicate is in the less-than or
  less-or-equal family while the step is strictly positive, or in the greater-than or
  greater-or-equal family while the step is negative, the constructor of the transform
  stops at its assert and produces no transform.
\<close>

theorem C8_sign_mismatch_aborts:
  assumes "LoopGoverningIVAttribution_new F iv scc exitBlocks = Inr a" and "isWellFormed a"
    and "stepSize iv = Some step"
    and "normalizedExitPredicate F iv a = Some p"
    and "(p \<in> {ICMP_SLT, ICMP_SLE, ICMP_ULT, ICMP_ULE} \<and> 0 < sint step)
       \<or> (p \<in> {ICMP_SGT, ICMP_SGE, ICMP_UGT, ICMP_UGE} \<and> sint step < 0)"
  shows "LoopGoverningIVUtility_new F iv a = Inl AssertionFailed"
proof -
  have "chooseNonStrictPredicate (isStrictlyPositive step) p = Inl AssertionFailed"
    using assms(5) by (auto simp: isStrictlyPositive_sint)
  then have "map_sum id nonStrictPredicate (LoopGoverningIVUtility_new F iv a)
               = Inl AssertionFailed"
    using utility_switch [OF assms(4) assms(3)] by simp
  then show ?thesis
    by (cases "LoopGoverningIVUtility_new F iv a") auto
qed

lemma demo_exit_predicate:
  "normalizedExitPredicate (demo_F (i_vs_21 p)) (demo_iv s)
     \<lparr>headerBr = Some 13, headerCmp = Some 12, conditionValue = Some 21,
      exitBlock = Some 3, conditionValueDerivation = {}, isWellFormed = True\<rparr> = Some p"
  by (simp add: normalizedExitPredicate_def demo_F_def demo_iv_def i_vs_21_def
      exitPredicateOf_def)

theorem C3_equality_exit_is_widened_witness:
  "\<exists>u. LoopGoverningIVUtility_new (demo_F (i_vs_21 ICMP_EQ)) (demo_iv (Some 1))
      \<lparr>headerBr = Some 13, headerCmp = Some 12, conditionValue = Some 21,
       exitBlock = Some 3, conditionValueDerivation = {}, isWellFormed = True\<rparr> = Inr u
    \<and> nonStrictPredicate u = ICMP_UGE"
proof -
  have s: "stepSize (demo_iv (Some 1)) = Some (1 :: 32 word)"
    by (simp add: demo_iv_def)
  show ?thesis
    using C3_equality_exit_is_widened [OF demo_attribution_const _ s demo_exit_predicate]
    by simp
qed

theorem C8_sign_mismatch_aborts_witness:
  "LoopGoverningIVUtility_new (demo_F (i_vs_21 ICMP_ULT)) (demo_iv (Some 1))
      \<lparr>headerBr = Some 13, headerCmp = Some 12, conditionValue = Some 21,
       exitBlock = Some 3, conditionValueDerivation = {}, isWellFormed = True\<rparr>
     = Inl AssertionFailed"
proof -
  have s: "stepSize (demo_iv (Some 1)) = Some (1 :: 32 word)"
    by (simp add: demo_iv_def)
  show ?thesis
    using C8_sign_mismatch_aborts [OF demo_attribution_const _ s demo_exit_predicate]
    by simp
qed

section \<open>Rewriting the exit comparison and branch\<close>

text \<open>
  C4 (as stated: two invocations leave the comparison and the branch as one invocation
  does, also for a transform that swaps the operands) does not hold: the transform below
  swaps the operands. One invocation on the comparison \<open>1 == 2\<close> leaves the operands
  2 and 1; the second invocation swaps them back to 1 and 2.
\<close>

theorem C4_rewrite_twice_counterexample:
  "updateConditionAndBranchToCatchIteratingPastExitValue
      \<lparr>condition = 12, doesOriginalCmpInstHaveIVAsLeftOperand = False,
       conditionValueOrderedDerivation = [], flipOperandsToUseNonStrictPredicate = True,
       nonStrictPredicate = ICMP_UGE\<rparr>
      \<lparr>getPredicate = ICMP_EQ, getOperand0 = 1, getOperand1 = 2\<rparr> (Conditional 12 3 2) 3
     = Inr (\<lparr>getPredicate = ICMP_UGE, getOperand0 = 2, getOperand1 = 1\<rparr>, Conditional 12 3 2)
   \<and> updateConditionAndBranchToCatchIteratingPastExitValue
      \<lparr>condition = 12, doesOriginalCmpInstHaveIVAsLeftOperand = False,
       conditionValueOrderedDerivation = [], flipOperandsToUseNonStrictPredicate = True,
       nonStrictPredicate = ICMP_UGE\<rparr>
      \<lparr>getPredicate = ICMP_UGE, getOperand0 = 2, getOperand1 = 1\<rparr> (Conditional 12 3 2) 3
     = Inr (\<lparr>getPredicate = ICMP_UGE, getOperand0 = 1, getOperand1 = 2\<rparr>, Conditional 12 3 2)
   \<and> \<lparr>getPredicate = ICMP_UGE, getOperand0 = 1, getOperand1 = 2\<rparr>
     \<noteq> \<lparr>getPredicate = ICMP_UGE, getOperand0 = 2, getOperand1 = 1\<rparr>"
  by (simp add: updateConditionAndBranchToCatchIteratingPastExitValue_def)

text \<open>
  C4 (amended): when an invocation returns, a second invocation with the same transform
  and exit block, on the comparison and branch the first one left, returns as well and
  leaves the predicate of the comparison and the branch as the first left them. For a
  transform that does not swap the operands the comparison is unchanged too, so the
  rewrite is idempotent; for a transform that swaps them, the second invocation puts the
  operands back in their original order.
\<close>

theorem C4_rewrite_twice:
  assumes "updateConditionAndBranchToCatchIteratingPastExitValue u cmp br exitB
             = Inr (cmp1, br1)"
  shows "\<exists>cmp2. updateConditionAndBranchToCatchIteratingPastExitValue u cmp1 br1 exitB
                  = Inr (cmp2, br1)
           \<and> getPredicate cmp2 = getPredicate cmp1
           \<and> (if flipOperandsToUseNonStrictPredicate u
                then getOperand0 cmp2 = getOperand0 cmp \<and> getOperand1 cmp2 = getOperand1 cmp
                else cmp2 = cmp1)"
  using assms
  by (cases br)
     (auto simp: updateConditionAndBranchToCatchIteratingPastExitValue_def Let_def
      split: if_splits)

theorem C4_rewrite_twice_witness:
  "updateConditionAndBranchToCatchIteratingPastExitValue
      \<lparr>condition = 12, doesOriginalCmpInstHaveIVAsLeftOperand = True,
       conditionValueOrderedDerivation = [], flipOperandsToUseNonStrictPredicate = False,
       nonStrictPredicate = ICMP_UGE\<rparr>
      \<lparr>getPredicate = ICMP_UGE, getOperand0 = 10, getOperand1 = 21\<rparr> (Conditional 12 3 2) 3
     = Inr (\<lparr>getPredicate = ICMP_UGE, getOperand0 = 10, getOperand1 = 21\<rparr>, Conditional 12 3 2)"
proof -
  let ?u = "\<lparr>condition = 12, doesOriginalCmpInstHaveIVAsLeftOperand = True,
       conditionValueOrderedDerivation = [], flipOperandsToUseNonStrictPredicate = False,
       nonStrictPredicate = ICMP_UGE\<rparr>"
  have once: "updateConditionAndBranchToCatchIteratingPastExitValue ?u
      \<lparr>getPredicate = ICMP_EQ, getOperand0 = 10, getOperand1 = 21\<rparr> (Conditional 12 2 3) 3
     = Inr (\<lparr>getPredicate = ICMP_UGE, getOperand0 = 10, getOperand1 = 21\<rparr>, Conditional 12 3 2)"
    by (simp add: updateConditionAndBranchToCatchIteratingPastExitValue_def)
  show ?thesis
    using C4_rewrite_twice [OF once] by auto
qed

section \<open>The attribution\<close>




text \<open>What the constructor collects: only producers that an incoming edge of the
  condition value itself names.\<close>

lemma scanProducers_collects:
  assumes "scanProducers F scc ivI edges D = Inr r"
  shows "(case r of Next D' \<Rightarrow> D' | Return D' \<Rightarrow> D') \<subseteq> D \<union> getOutgoingT ` set edges"
  using assms
  by (induction edges arbitrary: D) (auto simp: Let_def split: if_splits)

lemma derivation_is_direct:
  assumes "LoopGoverningIVAttribution_new F iv scc exitBlocks = Inr a"
    and "conditionValue a = Some cv"
  shows "conditionValueDerivation a \<subseteq> getOutgoingT ` set (getIncomingEdges scc cv)"
proof -
  have d: "conditionValueDerivation a' = {} \<Longrightarrow> deriveAndAccount F iv scc cm b v a' = Inr a
        \<Longrightarrow> conditionValueDerivation a \<subseteq> getOutgoingT ` set (getIncomingEdges scc v)
          \<and> conditionValue a = conditionValue a'" for a' cm b v
    using scanProducers_collects [of F scc "allInstructions iv" "getIncomingEdges scc v" "{}"]
    by (auto simp: deriveAndAccount_def split: if_splits sum.splits flow.splits)
  show ?thesis
    using assms
    by (auto simp: LoopGoverningIVAttribution_new_def Let_def
        split: ValueKind.splits BranchInst.splits if_splits dest!: d [rotated])
qed

lemma demo_attribution_n:
  "LoopGoverningIVAttribution_new (demo_F i_eq_n) (demo_iv s) (demo_scc_n i_eq_n) [3]
     = Inr \<lparr>headerBr = Some 13, headerCmp = Some 12, conditionValue = Some 11,
            exitBlock = Some 3, conditionValueDerivation = {15, 13}, isWellFormed = True\<rparr>"
  by (simp add: LoopGoverningIVAttribution_new_def deriveAndAccount_def demo_F_def demo_iv_def
      demo_scc_n_def demo_edges_def i_eq_n_def isInternal_def isAccountedFor_def insert_commute)

text \<open>
  C1: on the loop whose exit test is \<open>i == n\<close>, the condition value \<open>n\<close> (11) is internal
  to the component of the induction variable \<open>i\<close>; its internal producer \<open>a\<close> (15) has the
  internal producer \<open>inext\<close> (14), which belongs to the cycle of the induction variable. The
  constructor collects the direct producers 15 and 13 only and does not meet 14: the
  attribution is well formed, and the analysis makes \<open>i\<close> the governing induction variable
  of the loop.
\<close>

theorem C1_derivation_stops_at_direct_producers:
  "InductionVariable_new (demo_F i_eq_n) demo_loop (demo_SE (scConstant 1)) 10 (demo_scc_n i_eq_n)
     = Inr (demo_iv (Some 1))
   \<and> isInternal (demo_scc_n i_eq_n) 11
   \<and> \<lparr>getOutgoingT = 15, isDataDependence = True\<rparr> \<in> set (getIncomingEdges (demo_scc_n i_eq_n) 11)
   \<and> isInternal (demo_scc_n i_eq_n) 15
   \<and> \<lparr>getOutgoingT = 14, isDataDependence = True\<rparr> \<in> set (getIncomingEdges (demo_scc_n i_eq_n) 15)
   \<and> isInternal (demo_scc_n i_eq_n) 14
   \<and> 14 \<in> allInstructions (demo_iv (Some 1))
   \<and> LoopGoverningIVAttribution_new (demo_F i_eq_n) (demo_iv (Some 1)) (demo_scc_n i_eq_n) [3]
       = Inr \<lparr>headerBr = Some 13, headerCmp = Some 12, conditionValue = Some 11,
              exitBlock = Some 3, conditionValueDerivation = {15, 13}, isWellFormed = True\<rparr>
   \<and> map_sum id (\<lambda>ivs. getLoopGoverningInductionVariable ivs demo_loop)
        (InductionVariables_new (demo_F i_eq_n) (demo_LIS [3]) (demo_SE (scConstant 1))
           (\<lambda>v. Some (demo_scc_n i_eq_n)))
       = Inr (Some (demo_iv (Some 1)))"
proof -
  have c: "InductionVariable_new (demo_F i_eq_n) demo_loop (demo_SE (scConstant 1)) 10
             (demo_scc_n i_eq_n) = Inr (demo_iv (Some 1))"
    using demo_iv_n [of i_eq_n "scConstant 1"] by simp
  have p: "phis (demo_F i_eq_n) (getHeader demo_loop) = [10, 11]"
    by (simp add: phis_def demo_F_def demo_loop_def)
  have s: "demo_SE (scConstant 1) 10 = Some (scAddRecExpr (scConstant 0) (scConstant 1))"
    "demo_SE (scConstant 1) 11 = Some scUnknown"
    by (simp_all add: demo_SE_def)
  have st: "stepSize (demo_iv (Some 1) :: 32 word InductionVariable) = Some 1"
    by (simp add: demo_iv_def)
  have g: "map_sum id (\<lambda>ivs. getLoopGoverningInductionVariable ivs demo_loop)
        (InductionVariables_new (demo_F i_eq_n) (demo_LIS [3]) (demo_SE (scConstant 1))
           (\<lambda>v. Some (demo_scc_n i_eq_n)))
       = Inr (Some (demo_iv (Some 1)))"
    by (simp add: InductionVariables_new_def demo_LIS_def p s c demo_attribution_n st
        ivsOrEmpty_def getLoopGoverningInductionVariable_def)
  have e: "isInternal (demo_scc_n i_eq_n) 11
   \<and> \<lparr>getOutgoingT = 15, isDataDependence = True\<rparr> \<in> set (getIncomingEdges (demo_scc_n i_eq_n) 11)
   \<and> isInternal (demo_scc_n i_eq_n) 15
   \<and> \<lparr>getOutgoingT = 14, isDataDependence = True\<rparr> \<in> set (getIncomingEdges (demo_scc_n i_eq_n) 15)
   \<and> isInternal (demo_scc_n i_eq_n) 14
   \<and> 14 \<in> allInstructions (demo_iv (Some 1))"
    by (simp add: demo_scc_n_def demo_edges_def isInternal_def demo_iv_def)
  show ?thesis
    using c e g demo_attribution_n [of "Some 1"] by blast
qed

section \<open>The constructed induction variable\<close>

lemma classify_keeps:
  "headerPHI (classify F v iv) = headerPHI iv"
  "allInstructions iv \<subseteq> allInstructions (classify F v iv)"
  by (auto simp: classify_def)

lemma classify_PHI:
  "isPHINode (valueAt F v) \<Longrightarrow> v \<in> allInstructions (classify F v iv)"
  by (simp add: classify_def)

lemma collect_headerPHI:
  "headerPHI (collectIntermediateValues F scc queue visited iv) = headerPHI iv"
  by (induction F scc queue visited iv rule: collectIntermediateValues.induct)
     (simp_all add: classify_keeps)

lemma collect_grows:
  "allInstructions iv \<subseteq> allInstructions (collectIntermediateValues F scc queue visited iv)"
proof (induction F scc queue visited iv rule: collectIntermediateValues.induct)
  case (1 F scc valuesVisited iv)
  then show ?case by simp
next
  case (2 F scc v ivIntermediateValues valuesVisited iv)
  show ?case
  proof (cases "v \<in> valuesVisited")
    case True
    then show ?thesis using 2 by simp
  next
    case False
    have "allInstructions iv \<subseteq> allInstructions (classify F v iv)"
      by (rule classify_keeps)
    also have "\<dots> \<subseteq> allInstructions (collectIntermediateValues F scc
        (ivIntermediateValues @ internalDataProducers scc v) (insert v valuesVisited)
        (classify F v iv))"
      using 2(2) [OF False] .
    finally show ?thesis using False by simp
  qed
qed

lemma collect_start:
  assumes "isPHINode (valueAt F phi)"
  shows "phi \<in> allInstructions (collectIntermediateValues F scc [phi] {} iv)"
proof -
  have "phi \<in> allInstructions (classify F phi iv)"
    using assms by (rule classify_PHI)
  moreover have "collectIntermediateValues F scc [phi] {} iv
      = collectIntermediateValues F scc ([] @ internalDataProducers scc phi) (insert phi {})
          (classify F phi iv)"
    by simp
  ultimately show ?thesis
    using collect_grows [of "classify F phi iv" F scc "[] @ internalDataProducers scc phi"
        "insert phi {}"]
    by (auto simp del: collectIntermediateValues.simps)
qed

lemma findStartValue_outside:
  "findStartValue bbs incoming = Some v \<Longrightarrow> \<exists>b. (v, b) \<in> set incoming \<and> b \<notin> bbs"
  by (induction bbs incoming rule: findStartValue.induct) (auto split: if_splits)

lemma findStartValue_found:
  "(v, b) \<in> set incoming \<Longrightarrow> b \<notin> bbs \<Longrightarrow> findStartValue bbs incoming \<noteq> None"
  by (induction bbs incoming rule: findStartValue.induct) auto

lemma InductionVariable_new_fields:
  fixes iv :: "'c InductionVariable"
  assumes "InductionVariable_new F LS SE phi scc = Inr iv"
  shows "headerPHI iv = phi"
    and "allInstructions iv = allInstructions (collectIntermediateValues F scc [phi] {}
            (\<lparr>headerPHI = phi, PHIs = {}, accumulators = {}, allInstructions = {},
              startValue = None, stepSize = None\<rparr> :: 'c InductionVariable))"
    and "startValue iv = findStartValue (getBasicBlocks LS) (incomingOf (valueAt F phi))"
  using assms
  by (auto simp add: InductionVariable_new_def Let_def collect_headerPHI
      simp del: collectIntermediateValues.simps
      split: if_splits option.splits SCEV.splits)

text \<open>
  C7: for an induction variable the constructor returns, built from a header PHI of a
  loop, the header PHI is one of its \<^verbatim>\<open>allInstructions\<close>; its start value, when assigned,
  is an incoming value of the header PHI whose incoming block is not a block of the loop,
  and it is assigned whenever the header PHI has such an incoming block (the header of a
  loop is entered from outside the loop).
\<close>

theorem C7_header_in_cycle_and_start_outside:
  assumes "InductionVariable_new F LS SE phi scc = Inr iv"
    and "valueAt F phi = PHINode incoming"
  shows "headerPHI iv = phi \<and> headerPHI iv \<in> allInstructions iv
       \<and> (\<forall>v. startValue iv = Some v \<longrightarrow>
              (\<exists>b. (v, b) \<in> set incoming \<and> b \<notin> getBasicBlocks LS))
       \<and> ((\<exists>v b. (v, b) \<in> set incoming \<and> b \<notin> getBasicBlocks LS) \<longrightarrow>
              (\<exists>v b. startValue iv = Some v \<and> (v, b) \<in> set incoming
                     \<and> b \<notin> getBasicBlocks LS))"
proof -
  note f = InductionVariable_new_fields [OF assms(1)]
  have "isPHINode (valueAt F phi)" using assms(2) by simp
  then have m: "headerPHI iv \<in> allInstructions iv"
    unfolding f(1) f(2) by (rule collect_start)
  have s: "startValue iv = findStartValue (getBasicBlocks LS) incoming"
    using f(3) assms(2) by simp
  have a: "\<forall>v. startValue iv = Some v \<longrightarrow>
              (\<exists>b. (v, b) \<in> set incoming \<and> b \<notin> getBasicBlocks LS)"
    unfolding s using findStartValue_outside by fast
  have b: "(\<exists>v b. (v, b) \<in> set incoming \<and> b \<notin> getBasicBlocks LS) \<longrightarrow>
              (\<exists>v b. startValue iv = Some v \<and> (v, b) \<in> set incoming
                     \<and> b \<notin> getBasicBlocks LS)"
  proof
    assume "\<exists>v b. (v, b) \<in> set incoming \<and> b \<notin> getBasicBlocks LS"
    then have "startValue iv \<noteq> None"
      unfolding s using findStartValue_found by fast
    then obtain v where "startValue iv = Some v" by auto
    with a show "\<exists>v b. startValue iv = Some v \<and> (v, b) \<in> set incoming
                     \<and> b \<notin> getBasicBlocks LS" by blast
  qed
  show ?thesis using f(1) m a b by blast
qed

theorem C7_header_in_cycle_and_start_outside_witness:
  "headerPHI (demo_iv (Some 1)) = 10
   \<and> 10 \<in> allInstructions (demo_iv (Some 1))
   \<and> startValue (demo_iv (Some 1)) = Some 20
   \<and> (20, 0) \<in> set [(20, 0), (14, 2 :: BasicBlock)]
   \<and> 0 \<notin> getBasicBlocks demo_loop"
proof -
  have c: "InductionVariable_new (demo_F (i_vs_21 ICMP_EQ)) demo_loop (demo_SE (scConstant 1)) 10
             (demo_scc_const (i_vs_21 ICMP_EQ)) = Inr (demo_iv (Some 1))"
    using demo_iv_const [of "i_vs_21 ICMP_EQ" "scConstant 1"] by simp
  have p: "valueAt (demo_F (i_vs_21 ICMP_EQ)) 10 = PHINode [(20, 0), (14, 2)]"
    by (simp add: demo_F_def)
  have o: "\<exists>v b. (v, b) \<in> set [(20, 0), (14, 2 :: BasicBlock)] \<and> b \<notin> getBasicBlocks demo_loop"
    by (rule exI [of _ 20], rule exI [of _ 0]) (simp add: demo_loop_def)
  from C7_header_in_cycle_and_start_outside [OF c p] o
  have "headerPHI (demo_iv (Some 1)) = 10 \<and> headerPHI (demo_iv (Some 1)) \<in> allInstructions (demo_iv (Some 1))
     \<and> (\<exists>v b. startValue (demo_iv (Some 1)) = Some v \<and> (v, b) \<in> set [(20, 0), (14, 2)]
               \<and> b \<notin> getBasicBlocks demo_loop)"
    by blast
  then show ?thesis
    by (auto simp: demo_loop_def demo_iv_def)
qed

section \<open>The two maps of the analysis\<close>

lemma scanHeaderPHIs_step:
  "scanHeaderPHIs F LIS SE sccdag loop (phi # rest) st =
     (case analysePHI F LIS SE sccdag loop phi of
        Inl e \<Rightarrow> Inl e
      | Inr None \<Rightarrow> scanHeaderPHIs F LIS SE sccdag loop rest st
      | Inr (Some (IV, governs)) \<Rightarrow> scanHeaderPHIs F LIS SE sccdag loop rest (register loop IV governs st))"
  by (auto simp: analysePHI_def register_def Let_def split: option.splits sum.splits)

lemma analysePHI_step_present:
  "analysePHI F LIS SE sccdag loop phi = Inr (Some (IV, governs)) \<Longrightarrow> stepSize IV \<noteq> None"
  by (auto simp: analysePHI_def split: option.splits sum.splits if_splits)

lemma registeredIVs_Nil: "registeredIVs F LIS SE sccdag loop [] = {}"
  by (simp add: registeredIVs_def)

lemma governingIVs_Nil: "governingIVs F LIS SE sccdag loop [] = {}"
  by (simp add: governingIVs_def)

lemma registeredIVs_Cons:
  "registeredIVs F LIS SE sccdag loop (phi # rest) =
     (case analysePHI F LIS SE sccdag loop phi of
        Inr (Some (IV, governs)) \<Rightarrow> insert IV (registeredIVs F LIS SE sccdag loop rest)
      | _ \<Rightarrow> registeredIVs F LIS SE sccdag loop rest)"
  by (auto simp: registeredIVs_def split: sum.splits option.splits)

lemma governingIVs_Cons:
  "governingIVs F LIS SE sccdag loop (phi # rest) =
     (case analysePHI F LIS SE sccdag loop phi of
        Inr (Some (IV, True)) \<Rightarrow> insert IV (governingIVs F LIS SE sccdag loop rest)
      | _ \<Rightarrow> governingIVs F LIS SE sccdag loop rest)"
  by (auto simp: governingIVs_def split: sum.splits option.splits bool.splits)

lemma governing_registered:
  "governingIVs F LIS SE sccdag loop ps \<subseteq> registeredIVs F LIS SE sccdag loop ps"
  by (auto simp: governingIVs_def registeredIVs_def)

lemma registered_step_present:
  "IV \<in> registeredIVs F LIS SE sccdag loop ps \<Longrightarrow> stepSize IV \<noteq> None"
  by (auto simp: registeredIVs_def dest: analysePHI_step_present)

lemma scanHeaderPHIs_result:
  assumes "scanHeaderPHIs F LIS SE sccdag loop ps st = Inr st'"
    and "loopToIVsMap st loop = Some S"
  shows "loopToIVsMap st' loop = Some (S \<union> registeredIVs F LIS SE sccdag loop ps)
       \<and> (\<forall>k. k \<noteq> loop \<longrightarrow> loopToIVsMap st' k = loopToIVsMap st k
                          \<and> loopToGoverningIVMap st' k = loopToGoverningIVMap st k)
       \<and> (loopToGoverningIVMap st' loop = loopToGoverningIVMap st loop
            \<and> governingIVs F LIS SE sccdag loop ps = {}
          \<or> (\<exists>g \<in> governingIVs F LIS SE sccdag loop ps. loopToGoverningIVMap st' loop = Some g))"
  using assms
proof (induction ps arbitrary: st S)
  case Nil
  then show ?case by (simp add: governingIVs_Nil registeredIVs_Nil)
next
  case (Cons phi rest)
  show ?case
  proof (cases "analysePHI F LIS SE sccdag loop phi")
    case (Inl e)
    then show ?thesis using Cons.prems(1) by (simp add: scanHeaderPHIs_step del: scanHeaderPHIs.simps)
  next
    case (Inr r)
    show ?thesis
    proof (cases r)
      case None
      then have "scanHeaderPHIs F LIS SE sccdag loop rest st = Inr st'"
        using Cons.prems(1) Inr by (simp add: scanHeaderPHIs_step del: scanHeaderPHIs.simps)
      from Cons.IH [OF this Cons.prems(2)] show ?thesis
        using Inr None by (simp add: registeredIVs_Cons governingIVs_Cons)
    next
      case (Some p)
      obtain IV governs where p: "p = (IV, governs)" by (cases p)
      let ?st1 = "register loop IV governs st"
      have run: "scanHeaderPHIs F LIS SE sccdag loop rest ?st1 = Inr st'"
        using Cons.prems(1) Inr Some p by (simp add: scanHeaderPHIs_step del: scanHeaderPHIs.simps)
      have m: "loopToIVsMap ?st1 loop = Some (insert IV S)"
        using Cons.prems(2) by (simp add: register_def ivsOrEmpty_def Let_def)
      note ih = Cons.IH [OF run m]
      have others: "\<forall>k. k \<noteq> loop \<longrightarrow> loopToIVsMap ?st1 k = loopToIVsMap st k
                          \<and> loopToGoverningIVMap ?st1 k = loopToGoverningIVMap st k"
        by (simp add: register_def Let_def)
      show ?thesis
      proof (cases governs)
        case True
        have g1: "loopToGoverningIVMap ?st1 loop = Some IV"
          using True by (simp add: register_def Let_def)
        show ?thesis
          using ih others g1 Inr Some p True
          by (auto simp: registeredIVs_Cons governingIVs_Cons)
      next
        case False
        have g1: "loopToGoverningIVMap ?st1 loop = loopToGoverningIVMap st loop"
          using False by (simp add: register_def Let_def)
        show ?thesis
          using ih others g1 Inr Some p False
          by (auto simp: registeredIVs_Cons governingIVs_Cons)
      qed
    qed
  qed
qed

lemma scanLoops_consistent:
  assumes "scanLoops F LIS SE sccdag ls st = Inr st'"
    and "consistent F LIS SE sccdag st"
  shows "consistent F LIS SE sccdag st'"
  using assms
proof (induction ls arbitrary: st)
  case Nil
  then show ?case by simp
next
  case (Cons loop rest)
  let ?st0 = "st\<lparr>loopToIVsMap := (loopToIVsMap st)(loop \<mapsto> {})\<rparr>"
  let ?ps = "phis F (getHeader loop)"
  from Cons.prems(1) obtain st1 where
    scan: "scanHeaderPHIs F LIS SE sccdag loop ?ps ?st0 = Inr st1"
    and rest: "scanLoops F LIS SE sccdag rest st1 = Inr st'"
    by (auto split: sum.splits)
  have "loopToIVsMap ?st0 loop = Some {}" by simp
  note r = scanHeaderPHIs_result [OF scan this]
  have ivs1: "loopToIVsMap st1 loop = Some (registeredIVs F LIS SE sccdag loop ?ps)"
    using r by simp
  have others: "k \<noteq> loop \<Longrightarrow> loopToIVsMap st1 k = loopToIVsMap st k
                          \<and> loopToGoverningIVMap st1 k = loopToGoverningIVMap st k" for k
    using r by simp
  have gov1: "loopToGoverningIVMap st1 loop = Some g
                \<Longrightarrow> g \<in> governingIVs F LIS SE sccdag loop ?ps" for g
  proof -
    assume g: "loopToGoverningIVMap st1 loop = Some g"
    from r have "loopToGoverningIVMap st1 loop = loopToGoverningIVMap st loop
            \<and> governingIVs F LIS SE sccdag loop ?ps = {}
          \<or> (\<exists>g \<in> governingIVs F LIS SE sccdag loop ?ps. loopToGoverningIVMap st1 loop = Some g)"
      by simp
    then show ?thesis
    proof
      assume a: "loopToGoverningIVMap st1 loop = loopToGoverningIVMap st loop
            \<and> governingIVs F LIS SE sccdag loop ?ps = {}"
      then have "loopToGoverningIVMap st loop = Some g" using g by simp
      then have "g \<in> governingIVs F LIS SE sccdag loop ?ps"
        using Cons.prems(2) by (simp add: consistent_def)
      then show ?thesis .
    next
      assume "\<exists>g \<in> governingIVs F LIS SE sccdag loop ?ps. loopToGoverningIVMap st1 loop = Some g"
      then show ?thesis using g by auto
    qed
  qed
  have "consistent F LIS SE sccdag st1"
    unfolding consistent_def
  proof (intro allI)
    fix l
    show "(\<forall>S. loopToIVsMap st1 l = Some S \<longrightarrow>
               S = registeredIVs F LIS SE sccdag l (phis F (getHeader l)))
        \<and> (\<forall>g. loopToGoverningIVMap st1 l = Some g \<longrightarrow>
               g \<in> governingIVs F LIS SE sccdag l (phis F (getHeader l))
               \<and> loopToIVsMap st1 l \<noteq> None)"
    proof (cases "l = loop")
      case True
      then show ?thesis using ivs1 gov1 by auto
    next
      case False
      then show ?thesis
        using others [OF False] Cons.prems(2) by (simp add: consistent_def)
    qed
  qed
  with rest show ?case by (rule Cons.IH)
qed

lemma InductionVariables_new_consistent:
  assumes "InductionVariables_new F LIS SE sccdag = Inr ivs"
  shows "consistent F LIS SE sccdag ivs"
proof -
  have "consistent F LIS SE sccdag
          \<lparr>loopToIVsMap = Map.empty, loopToGoverningIVMap = Map.empty\<rparr>"
    by (simp add: consistent_def)
  with assms show ?thesis
    unfolding InductionVariables_new_def by (rule scanLoops_consistent)
qed

lemma demo_analysis:
  "InductionVariables_new (demo_F (i_vs_21 p)) (demo_LIS [3]) (demo_SE s)
       (\<lambda>v. Some (demo_scc_const (i_vs_21 p)))
     = Inr (if stepOfSCEV s = None
            then \<lparr>loopToIVsMap = [demo_loop \<mapsto> {}], loopToGoverningIVMap = Map.empty\<rparr>
            else \<lparr>loopToIVsMap = [demo_loop \<mapsto> {demo_iv (stepOfSCEV s)}],
                  loopToGoverningIVMap = [demo_loop \<mapsto> demo_iv (stepOfSCEV s)]\<rparr>)"
proof -
  have p: "phis (demo_F (i_vs_21 p)) (getHeader demo_loop) = [10, 11]"
    by (simp add: phis_def demo_F_def demo_loop_def)
  have s10: "demo_SE s 10 = Some (scAddRecExpr (scConstant 0) s)"
    and s11: "demo_SE s 11 = Some scUnknown"
    by (simp_all add: demo_SE_def)
  have st: "stepSize (demo_iv (stepOfSCEV s)) = stepOfSCEV s"
    by (simp add: demo_iv_def)
  show ?thesis
    by (simp add: InductionVariables_new_def demo_LIS_def p s10 s11 demo_iv_const
        demo_attribution_const st ivsOrEmpty_def)
qed

text \<open>
  C10: when the governing-IV query of a loop returns an induction variable, the query for
  the induction variables of the same loop succeeds and that induction variable is an
  element of the set it returns.
\<close>

theorem C10_governing_iv_is_registered:
  assumes "InductionVariables_new F LIS SE sccdag = Inr ivs"
    and "getLoopGoverningInductionVariable ivs L = Some iv"
  shows "\<exists>S. getInductionVariables ivs L = Inr S \<and> iv \<in> S"
proof -
  note c = InductionVariables_new_consistent [OF assms(1)]
  have g: "loopToGoverningIVMap ivs L = Some iv"
    using assms(2) by (simp add: getLoopGoverningInductionVariable_def split: if_splits)
  with c have m: "iv \<in> governingIVs F LIS SE sccdag L (phis F (getHeader L))"
    and "loopToIVsMap ivs L \<noteq> None"
    by (simp_all add: consistent_def)
  then obtain S where S: "loopToIVsMap ivs L = Some S" by auto
  with c have "S = registeredIVs F LIS SE sccdag L (phis F (getHeader L))"
    by (simp add: consistent_def)
  with m governing_registered have "iv \<in> S" by fast
  with S show ?thesis by (simp add: getInductionVariables_def)
qed

theorem C10_governing_iv_is_registered_witness:
  "getLoopGoverningInductionVariable
      \<lparr>loopToIVsMap = [demo_loop \<mapsto> {demo_iv (Some 1)}],
       loopToGoverningIVMap = [demo_loop \<mapsto> demo_iv (Some 1)]\<rparr> demo_loop
     = Some (demo_iv (Some 1))
   \<and> getInductionVariables
      \<lparr>loopToIVsMap = [demo_loop \<mapsto> {demo_iv (Some 1)}],
       loopToGoverningIVMap = [demo_loop \<mapsto> demo_iv (Some 1)]\<rparr> demo_loop
     = Inr {demo_iv (Some 1)}
   \<and> demo_iv (Some 1) \<in> {demo_iv (Some 1)}"
proof -
  let ?A = "\<lparr>loopToIVsMap = [demo_loop \<mapsto> {demo_iv (Some 1)}],
       loopToGoverningIVMap = [demo_loop \<mapsto> demo_iv (Some 1)]\<rparr>"
  have a: "InductionVariables_new (demo_F (i_vs_21 ICMP_EQ)) (demo_LIS [3])
       (demo_SE (scConstant 1)) (\<lambda>v. Some (demo_scc_const (i_vs_21 ICMP_EQ))) = Inr ?A"
    by (simp add: demo_analysis)
  have g: "getLoopGoverningInductionVariable ?A demo_loop = Some (demo_iv (Some 1))"
    by (simp add: getLoopGoverningInductionVariable_def)
  show ?thesis
    using C10_governing_iv_is_registered [OF a g] g
    by (simp add: getInductionVariables_def)
qed

text \<open>
  C6: an induction variable whose step is absent is not the governing induction variable
  of any loop: the governing-IV query never returns it.
\<close>

theorem C6_absent_step_never_governs:
  assumes "InductionVariables_new F LIS SE sccdag = Inr ivs"
    and "stepSize iv = None"
  shows "loopToGoverningIVMap ivs L \<noteq> Some iv
       \<and> getLoopGoverningInductionVariable ivs L \<noteq> Some iv"
proof -
  note c = InductionVariables_new_consistent [OF assms(1)]
  have "loopToGoverningIVMap ivs L \<noteq> Some iv"
  proof
    assume "loopToGoverningIVMap ivs L = Some iv"
    with c have "iv \<in> governingIVs F LIS SE sccdag L (phis F (getHeader L))"
      by (simp add: consistent_def)
    with governing_registered have "iv \<in> registeredIVs F LIS SE sccdag L (phis F (getHeader L))"
      by fast
    then have "stepSize iv \<noteq> None" by (rule registered_step_present)
    with assms(2) show False by simp
  qed
  then show ?thesis
    by (simp add: getLoopGoverningInductionVariable_def)
qed

theorem C6_absent_step_never_governs_witness:
  "InductionVariable_new (demo_F (i_vs_21 ICMP_EQ)) demo_loop (demo_SE scMulExpr) 10
       (demo_scc_const (i_vs_21 ICMP_EQ)) = Inr (demo_iv None)
   \<and> stepSize (demo_iv None :: 32 word InductionVariable) = None
   \<and> getLoopGoverningInductionVariable
        \<lparr>loopToIVsMap = [demo_loop \<mapsto> {}], loopToGoverningIVMap = Map.empty\<rparr> demo_loop
       \<noteq> Some (demo_iv None :: 32 word InductionVariable)"
proof -
  let ?A = "\<lparr>loopToIVsMap = [demo_loop \<mapsto> {}], loopToGoverningIVMap = Map.empty\<rparr>
              :: 32 word InductionVariables"
  have a: "InductionVariables_new (demo_F (i_vs_21 ICMP_EQ)) (demo_LIS [3])
       (demo_SE scMulExpr) (\<lambda>v. Some (demo_scc_const (i_vs_21 ICMP_EQ))) = Inr ?A"
    by (simp add: demo_analysis)
  have s: "stepSize (demo_iv None :: 32 word InductionVariable) = None"
    by (simp add: demo_iv_def)
  have c: "InductionVariable_new (demo_F (i_vs_21 ICMP_EQ)) demo_loop (demo_SE scMulExpr) 10
       (demo_scc_const (i_vs_21 ICMP_EQ)) = Inr (demo_iv None)"
    using demo_iv_const [of "i_vs_21 ICMP_EQ" scMulExpr] by simp
  show ?thesis
    using C6_absent_step_never_governs [OF a s, of demo_loop] s c by simp
qed

text \<open>
  C5 (as stated: an induction variable constructed with an absent step is retained in the
  set of its loop and returned by the query) does not hold: with a step recurrence that is
  a product, the constructor returns the induction variable of \<open>i\<close> with no step, the
  analysis deletes it, and the query for the loop returns the empty set.
\<close>

theorem C5_absent_step_discarded_counterexample:
  "InductionVariable_new (demo_F (i_vs_21 ICMP_EQ)) demo_loop (demo_SE scMulExpr) 10
       (demo_scc_const (i_vs_21 ICMP_EQ)) = Inr (demo_iv None)
   \<and> stepSize (demo_iv None :: 32 word InductionVariable) = None
   \<and> InductionVariables_new (demo_F (i_vs_21 ICMP_EQ)) (demo_LIS [3])
       (demo_SE scMulExpr) (\<lambda>v. Some (demo_scc_const (i_vs_21 ICMP_EQ)))
       = Inr \<lparr>loopToIVsMap = [demo_loop \<mapsto> {}], loopToGoverningIVMap = Map.empty\<rparr>
   \<and> getInductionVariables
        (\<lparr>loopToIVsMap = [demo_loop \<mapsto> {}], loopToGoverningIVMap = Map.empty\<rparr>
           :: 32 word InductionVariables) demo_loop = Inr {}"
proof -
  have c: "InductionVariable_new (demo_F (i_vs_21 ICMP_EQ)) demo_loop (demo_SE scMulExpr) 10
       (demo_scc_const (i_vs_21 ICMP_EQ)) = Inr (demo_iv None)"
    using demo_iv_const [of "i_vs_21 ICMP_EQ" scMulExpr] by simp
  show ?thesis
    using c by (simp add: demo_analysis demo_iv_def getInductionVariables_def)
qed

text \<open>
  C5 (amended): an induction variable whose step is absent is discarded by the analysis:
  it is not an element of the set the query returns for any loop, so every induction
  variable the query returns has a constant step.
\<close>

theorem C5_absent_step_not_retained:
  assumes "InductionVariables_new F LIS SE sccdag = Inr ivs"
    and "stepSize iv = None"
    and "getInductionVariables ivs L = Inr S"
  shows "iv \<notin> S"
proof
  assume "iv \<in> S"
  note c = InductionVariables_new_consistent [OF assms(1)]
  have "loopToIVsMap ivs L = Some S"
    using assms(3) by (simp add: getInductionVariables_def split: option.splits)
  with c have "S = registeredIVs F LIS SE sccdag L (phis F (getHeader L))"
    by (simp add: consistent_def)
  with \<open>iv \<in> S\<close> have "stepSize iv \<noteq> None"
    using registered_step_present by fast
  with assms(2) show False by simp
qed

theorem C5_absent_step_not_retained_witness:
  "stepSize (demo_iv None :: 32 word InductionVariable) = None
   \<and> getInductionVariables
        \<lparr>loopToIVsMap = [demo_loop \<mapsto> {demo_iv (Some 1)}],
         loopToGoverningIVMap = [demo_loop \<mapsto> demo_iv (Some 1)]\<rparr> demo_loop
       = Inr {demo_iv (Some 1)}
   \<and> (demo_iv None :: 32 word InductionVariable) \<notin> {demo_iv (Some 1)}"
proof -
  let ?A = "\<lparr>loopToIVsMap = [demo_loop \<mapsto> {demo_iv (Some 1)}],
       loopToGoverningIVMap = [demo_loop \<mapsto> demo_iv (Some 1)]\<rparr>"
  have a: "InductionVariables_new (demo_F (i_vs_21 ICMP_EQ)) (demo_LIS [3])
       (demo_SE (scConstant 1)) (\<lambda>v. Some (demo_scc_const (i_vs_21 ICMP_EQ))) = Inr ?A"
    by (simp add: demo_analysis)
  have s: "stepSize (demo_iv None :: 32 word InductionVariable) = None"
    by (simp add: demo_iv_def)
  have q: "getInductionVariables ?A demo_loop = Inr {demo_iv (Some 1)}"
    by (simp add: getInductionVariables_def)
  show ?thesis
    using C5_absent_step_not_retained [OF a s q] s q by simp
qed

end
